theory Spec2Isabelle
  imports Complex_Main "HOL-Library.Char_ord" "HOL-Library.List_Lexorder" "HOL-Library.Log_Nat"
    "HOL-Library.Multiset"
begin

section \<open>Python values used by \<open>main.py\<close>\<close>

text \<open>
  The insights code of \<open>src/main.py\<close> works on MongoDB documents of the \<open>moodlog\<close>
  collection (schema \<open>MoodLog\<close> of \<open>src/schemas.py\<close>), on naive \<open>datetime\<close> values and
  on Python floats. The embedding keeps

  \<^item> a naive \<open>datetime\<close> as the number of microseconds between 1970-01-01T00:00:00 and
    its wall-clock reading (an \<open>int\<close>, negative before 1970);
  \<^item> a \<open>date\<close> as its proleptic Gregorian ordinal (\<open>date.toordinal()\<close>, day 1 is
    0001-01-01), converted to year, month and day by \<open>ord2ymd\<close>, the algorithm of
    Python's \<open>datetime\<close> module;
  \<^item> a float as the rational number it is (\<open>rat\<close>): every float operation of the code
    (\<open>int / int\<close>, \<open>int / 1e6\<close>, \<open>+\<close>) rounds its exact result to the nearest
    binary64 number, \<open>binary64\<close>;
  \<^item> the server's local time zone as a fixed UTC offset \<open>tz\<close>, in seconds east of UTC
    (no daylight-saving transitions), a parameter of every function that reads it;
  \<^item> the clock as the values \<open>datetime.utcnow()\<close> returns, one parameter for each read;
  \<^item> every exception as a value of type \<open>error\<close>.
\<close>

datatype error = KeyError | ValueError | OverflowError

definition bind_err :: "error + 'a \<Rightarrow> ('a \<Rightarrow> error + 'b) \<Rightarrow> error + 'b" where
  "bind_err r f = (case r of Inl e \<Rightarrow> Inl e | Inr x \<Rightarrow> f x)"

subsection \<open>Calendar dates\<close>

definition DAYS_IN_MONTH :: "int list" where
  "DAYS_IN_MONTH = [-1, 31, 28, 31, 30, 31, 30, 31, 31, 30, 31, 30, 31]"

definition DAYS_BEFORE_MONTH :: "int list" where
  "DAYS_BEFORE_MONTH = [-1, 0, 31, 59, 90, 120, 151, 181, 212, 243, 273, 304, 334]"

definition DI400Y :: int where "DI400Y = 146097"
definition DI100Y :: int where "DI100Y = 36524"
definition DI4Y :: int where "DI4Y = 1461"

text \<open>\<open>date.min.toordinal()\<close>, \<open>date.max.toordinal()\<close> and the ordinal of 1970-01-01.\<close>

definition MINORD :: int where "MINORD = 1"
definition MAXORD :: int where "MAXORD = 3652059"
definition EPOCHORD :: int where "EPOCHORD = 719163"

definition is_leap :: "int \<Rightarrow> bool" where
  "is_leap year = (year mod 4 = 0 \<and> (year mod 100 \<noteq> 0 \<or> year mod 400 = 0))"

definition days_before_year :: "int \<Rightarrow> int" where
  "days_before_year year = (let y = year - 1 in y * 365 + y div 4 - y div 100 + y div 400)"

definition days_before_month :: "int \<Rightarrow> int \<Rightarrow> int" where
  "days_before_month year month =
     DAYS_BEFORE_MONTH ! nat month + (if month > 2 \<and> is_leap year then 1 else 0)"

definition ymd2ord :: "int \<times> int \<times> int \<Rightarrow> int" where
  "ymd2ord d = (case d of (year, month, day) \<Rightarrow>
     days_before_year year + days_before_month year month + day)"

text \<open>The month and day of the \<open>n\<close>-th day (from 0) of a year, as \<open>_ord2ymd\<close> finds them:
  an estimate of the month that is at most one too large, then a correction.\<close>

definition month_day :: "bool \<Rightarrow> int \<Rightarrow> int \<times> int" where
  "month_day leapyear n =
     (let month = (n + 50) div 32;
          preceding = DAYS_BEFORE_MONTH ! nat month + (if month > 2 \<and> leapyear then 1 else 0)
      in if preceding > n
         then (let month' = month - 1;
                   preceding' = preceding
                     - (DAYS_IN_MONTH ! nat month' + (if month' = 2 \<and> leapyear then 1 else 0))
               in (month', n - preceding' + 1))
         else (month, n - preceding + 1))"

definition ord2ymd :: "int \<Rightarrow> int \<times> int \<times> int" where
  "ord2ymd n =
     (let n0 = n - 1;
          n400 = n0 div DI400Y; r1 = n0 mod DI400Y;
          n100 = r1 div DI100Y; r2 = r1 mod DI100Y;
          n4 = r2 div DI4Y; r3 = r2 mod DI4Y;
          n1 = r3 div 365; r4 = r3 mod 365;
          year = n400 * 400 + 1 + n100 * 100 + n4 * 4 + n1
      in if n1 = 4 \<or> n100 = 4 then (year - 1, 12, 31)
         else (let leapyear = (n1 = 3 \<and> (n4 \<noteq> 24 \<or> n100 = 3));
                   md = month_day leapyear r4
               in (year, fst md, snd md)))"

subsection \<open>Decimal formatting\<close>

definition digit :: "nat \<Rightarrow> char" where
  "digit k = ''0123456789'' ! k"

fun str_nat :: "nat \<Rightarrow> string" where
  "str_nat n = (if n < 10 then [digit n] else str_nat (n div 10) @ [digit (n mod 10)])"

declare str_nat.simps [simp del]

definition zfill :: "nat \<Rightarrow> string \<Rightarrow> string" where
  "zfill w s = replicate (w - length s) (CHR ''0'') @ s"

text \<open>\<open>date.isoformat()\<close>, that is \<open>"%04d-%02d-%02d" % (year, month, day)\<close>.\<close>

definition isoformat_ymd :: "int \<times> int \<times> int \<Rightarrow> string" where
  "isoformat_ymd d = (case d of (year, month, day) \<Rightarrow>
     zfill 4 (str_nat (nat year)) @ ''-'' @ zfill 2 (str_nat (nat month)) @ ''-''
       @ zfill 2 (str_nat (nat day)))"

definition isoformat :: "int \<Rightarrow> string" where
  "isoformat ord = isoformat_ymd (ord2ymd ord)"

subsection \<open>Naive datetimes, POSIX timestamps and floats\<close>

type_synonym datetime = int

definition US_PER_SECOND :: int where "US_PER_SECOND = 1000000"
definition US_PER_DAY :: int where "US_PER_DAY = 86400000000"

text \<open>\<open>datetime.min\<close> and \<open>datetime.max\<close>: 0001-01-01T00:00:00 and
  9999-12-31T23:59:59.999999.\<close>

definition MINDT :: datetime where "MINDT = (MINORD - EPOCHORD) * US_PER_DAY"
definition MAXDT :: datetime where "MAXDT = (MAXORD - EPOCHORD + 1) * US_PER_DAY - 1"

text \<open>\<open>dt.date()\<close>, as an ordinal.\<close>

definition date_of :: "datetime \<Rightarrow> int" where
  "date_of dt = dt div US_PER_DAY + EPOCHORD"

text \<open>\<open>dt - timedelta(days=days)\<close>: \<open>timedelta\<close> refuses more than 999999999 days and the
  difference must be a \<open>datetime\<close>; both failures are an \<open>OverflowError\<close>.\<close>

definition sub_days :: "datetime \<Rightarrow> int \<Rightarrow> error + datetime" where
  "sub_days dt days =
     (if \<bar>days\<bar> > 999999999 then Inl OverflowError
      else (let r = dt - days * US_PER_DAY
            in if MINDT \<le> r \<and> r \<le> MAXDT then Inr r else Inl OverflowError))"

text \<open>\<open>\<lfloor>log\<^sub>2 x\<rfloor>\<close> of a positive rational, from the bit lengths of its numerator and
  denominator.\<close>

definition floor_log2 :: "rat \<Rightarrow> int" where
  "floor_log2 x =
     (let d = bitlen (fst (quotient_of x)) - bitlen (snd (quotient_of x))
      in if 2 powi d \<le> x then d else d - 1)"

text \<open>Rounding to integer, a tie to the even one.\<close>

definition round_half_even :: "rat \<Rightarrow> int" where
  "round_half_even x =
     (let f = \<lfloor>x\<rfloor>; d = x - of_int f
      in if d < 1 / 2 then f else if 1 / 2 < d then f + 1 else if even f then f else f + 1)"

text \<open>The binary64 number nearest to \<open>x\<close>, a tie to the even significand: 53 bits of
  significand, subnormal below \<open>2 powi - 1022\<close>. Overflow is left out: the floats of the code
  are timestamps of a \<open>datetime\<close> and quotients of sums of stored integers by their number,
  far below \<open>2 powi 1024\<close>.\<close>

definition binary64 :: "rat \<Rightarrow> rat" where
  "binary64 x =
     (if x = 0 then 0
      else (let e = max (floor_log2 \<bar>x\<bar>) (- 1022); ulp = 2 powi (e - 52)
            in of_int (round_half_even (x / ulp)) * ulp))"

text \<open>\<open>dt.timestamp()\<close> of a naive \<open>dt\<close>. Its whole seconds \<open>t\<close> are read as local time
  and moved to UTC; on the way Python converts the instants \<open>t\<close> and \<open>t - tz - 86400\<close> to
  local time (the second to look for a repeated hour) and raises \<open>ValueError\<close> when the
  year of either is outside 1..9999. Then the float \<open>microsecond / 1e6\<close> is added, in
  floats.\<close>

definition timestamp :: "int \<Rightarrow> datetime \<Rightarrow> error + rat" where
  "timestamp tz dt =
     (let t = dt div US_PER_SECOND
      in if MINDT \<le> (t + tz) * US_PER_SECOND \<and> (t + tz) * US_PER_SECOND \<le> MAXDT
            \<and> MINDT \<le> (t - 86400) * US_PER_SECOND
         then Inr (binary64 (of_int (t - tz)
                             + binary64 (of_int (dt mod US_PER_SECOND) / 1000000)))
         else Inl ValueError)"

text \<open>\<open>int(x)\<close> of a float truncates toward zero.\<close>

definition py_int :: "rat \<Rightarrow> int" where
  "py_int x = (if x < 0 then \<lceil>x\<rceil> else \<lfloor>x\<rfloor>)"

text \<open>\<open>datetime.fromtimestamp(t)\<close> for an integer \<open>t\<close>: the naive local time, a
  \<open>ValueError\<close> when its year, or the year of the local time one day earlier (looked at
  for a repeated hour), is outside 1..9999.\<close>

definition fromtimestamp :: "int \<Rightarrow> int \<Rightarrow> error + datetime" where
  "fromtimestamp tz t =
     (let local = (t + tz) * US_PER_SECOND
      in if MINDT + US_PER_DAY \<le> local \<and> local \<le> MAXDT then Inr local
         else Inl ValueError)"

text \<open>\<open>round(x, 2)\<close> of a float \<open>x\<close>: the multiple of 0.01 nearest to the exact value of
  \<open>x\<close>, a tie to the even one. Python returns the float nearest to that decimal, which
  prints as the decimal; the model keeps the decimal.\<close>

definition py_round2 :: "rat \<Rightarrow> rat" where
  "py_round2 x = of_int (round_half_even (x * 100)) / 100"

section \<open>The data model\<close>

text \<open>A document of the \<open>moodlog\<close> collection. \<open>mood\<close> is optional because the code
  reads it once with \<open>l.get("mood", 0)\<close> and once with \<open>l["mood"]\<close>; the fields the
  insights code never reads (\<open>emoji\<close>, \<open>note\<close>, \<open>tags\<close>) are left out.\<close>

record moodlog =
  anonymous_id :: string
  mood :: "int option"
  logged_at :: datetime

record day_entry =
  date :: string
  avg :: rat

record insights_result =
  avg_mood :: "rat option"
  entries :: nat
  streak :: nat
  by_day :: "day_entry list"

record suggestion =
  sug_id :: string
  title :: string
  duration :: nat
  sug_type :: string

record suggestion_response =
  reason :: string
  items :: "suggestion list"
  sr_insights :: insights_result

record insights_response =
  kpis :: insights_result
  ai_summary :: "string list"
  suggested_actions :: "string list"

text \<open>The query \<open>db["moodlog"].find({"anonymous_id": a, "logged_at": {"$gte": since}})\<close>
  is a parameter of the model, \<open>store a since\<close>: \<open>database.py\<close> is not part of the
  sources. \<open>find_moodlog\<close> is the store the examples run on.\<close>

type_synonym store = "string \<Rightarrow> datetime \<Rightarrow> moodlog list"

text \<open>Modelled from the spec: the Mood Log Store "queried by user identifier and a trailing
  time window"; the module \<open>database\<close> that provides \<open>db\<close> is missing.\<close>

definition find_moodlog :: "moodlog list \<Rightarrow> store" where
  "find_moodlog docs a since = filter (\<lambda>l. anonymous_id l = a \<and> since \<le> logged_at l) docs"

section \<open>Suggestions and insights (\<open>src/main.py\<close>)\<close>

definition SUGGESTION_LIBRARY :: "suggestion list" where
  "SUGGESTION_LIBRARY =
     [\<lparr>sug_id = ''breath-2'', title = ''Try this quick breathing reset'', duration = 2,
        sug_type = ''breathing''\<rparr>,
      \<lparr>sug_id = ''meditate-5'', title = ''Mini meditation'', duration = 5,
        sug_type = ''meditation''\<rparr>,
      \<lparr>sug_id = ''walk-5'', title = ''Micro-walk'', duration = 5, sug_type = ''walk''\<rparr>,
      \<lparr>sug_id = ''affirm-1'', title = ''Affirmation card'', duration = 1,
        sug_type = ''affirmation''\<rparr>]"

text \<open>\<open>datetime.fromtimestamp(int(l["logged_at"].timestamp())).date()\<close>.\<close>

definition log_date :: "int \<Rightarrow> moodlog \<Rightarrow> error + int" where
  "log_date tz l =
     bind_err (timestamp tz (logged_at l)) (\<lambda>x.
     bind_err (fromtimestamp tz (py_int x)) (\<lambda>dt. Inr (date_of dt)))"

text \<open>The set comprehension \<open>days_set\<close>; the set is kept as the list of its elements, only
  membership is asked of it.\<close>

fun log_dates :: "int \<Rightarrow> moodlog list \<Rightarrow> error + int list" where
  "log_dates tz [] = Inr []"
| "log_dates tz (l # ls) =
     bind_err (log_date tz l) (\<lambda>d. bind_err (log_dates tz ls) (\<lambda>ds. Inr (d # ds)))"

text \<open>The loop \<open>while d in days_set: streak += 1; d = d - timedelta(days=1)\<close>, with
  the counter \<open>streak\<close> as \<open>n\<close>; the subtraction raises \<open>OverflowError\<close> below
  \<open>date.min\<close>.\<close>

function streak_loop :: "int list \<Rightarrow> int \<Rightarrow> nat \<Rightarrow> error + nat" where
  "streak_loop days_set d n =
     (if d \<in> set days_set
      then (if d - 1 < MINORD then Inl OverflowError
            else streak_loop days_set (d - 1) (n + 1))
      else Inr n)"
  by pat_completeness auto
termination
proof (relation "measure (\<lambda>(days_set, d, n). length (filter (\<lambda>x. x \<le> d) days_set))")
  show "wf (measure (\<lambda>(days_set, d, n). length (filter (\<lambda>x. x \<le> d) days_set)))"
    by simp
next
  fix days_set :: "int list" and d :: int and n :: nat
  assume d: "d \<in> set days_set"
  let ?xs = "filter (\<lambda>x. x \<le> d) days_set"
  have "d \<in> set ?xs" using d by simp
  then have "length (filter (\<lambda>x. x \<le> d - 1) ?xs) < length ?xs"
    by (rule length_filter_less) simp
  moreover have "filter (\<lambda>x. x \<le> d - 1) ?xs = filter (\<lambda>x. x \<le> d - 1) days_set"
    by (auto intro: filter_cong)
  ultimately show "((days_set, d - 1, n + 1), (days_set, d, n))
      \<in> measure (\<lambda>(days_set, d, n). length (filter (\<lambda>x. x \<le> d) days_set))"
    by simp
qed

declare streak_loop.simps [simp del]

text \<open>\<open>by.setdefault(d, []).append(m)\<close> on a dict kept in insertion order.\<close>

fun setdefault_append :: "string \<Rightarrow> int \<Rightarrow> (string \<times> int list) list \<Rightarrow> (string \<times> int list) list"
  where
  "setdefault_append k m [] = [(k, [m])]"
| "setdefault_append k m ((k', v) # rest) =
     (if k = k' then (k', v @ [m]) # rest else (k', v) # setdefault_append k m rest)"

text \<open>The loop \<open>for l in logs\<close> that fills the dict \<open>by\<close> (here \<open>groups\<close>); \<open>l["mood"]\<close> raises \<open>KeyError\<close> when
  the document has no mood.\<close>

fun group_by_day ::
  "int \<Rightarrow> moodlog list \<Rightarrow> (string \<times> int list) list \<Rightarrow> error + (string \<times> int list) list"
  where
  "group_by_day tz [] groups = Inr groups"
| "group_by_day tz (l # ls) groups =
     bind_err (log_date tz l) (\<lambda>d.
       case mood l of
         None \<Rightarrow> Inl KeyError
       | Some m \<Rightarrow> group_by_day tz ls (setdefault_append (isoformat d) m groups))"

text \<open>\<open>l.get("mood", 0)\<close>.\<close>

definition get_mood :: "moodlog \<Rightarrow> int" where
  "get_mood l = (case mood l of None \<Rightarrow> 0 | Some m \<Rightarrow> m)"

text \<open>\<open>sum(v) / len(v)\<close>: the sum is an exact integer, the quotient a float.\<close>

definition mean :: "int list \<Rightarrow> rat" where
  "mean v = binary64 (of_int (sum_list v) / of_nat (length v))"

text \<open>\<open>compute_insights(anonymous_id, days)\<close>. The code reads the clock twice:
  \<open>now\<close> is what \<open>datetime.utcnow()\<close> returns at line 136, \<open>now'\<close> what it returns at
  line 153. \<open>sorted(by.items())\<close> orders the pairs by their keys, which are distinct.\<close>

definition compute_insights ::
  "int \<Rightarrow> store \<Rightarrow> datetime \<Rightarrow> datetime \<Rightarrow> string \<Rightarrow> int \<Rightarrow> error + insights_result"
  where
  "compute_insights tz store now now' a days =
     bind_err (sub_days now days) (\<lambda>since.
       let logs = store a since
       in if logs = [] then Inr \<lparr>avg_mood = None, entries = 0, streak = 0, by_day = []\<rparr>
          else
            let av = py_round2 (mean (map get_mood logs))
            in bind_err (log_dates tz logs) (\<lambda>days_set.
               bind_err (streak_loop days_set (date_of now') 0) (\<lambda>n.
               bind_err (group_by_day tz logs []) (\<lambda>groups.
                 Inr \<lparr>avg_mood = Some av, entries = length logs, streak = n,
                      by_day = map (\<lambda>(k, v). \<lparr>date = k, avg = py_round2 (mean v)\<rparr>)
                                 (sort_key fst groups)\<rparr>))))"

text \<open>Lines 170 to 182 of \<open>get_suggestions\<close>: the picks and the reason.\<close>

definition select_suggestions :: "insights_result \<Rightarrow> string \<times> suggestion list" where
  "select_suggestions ins =
     (case avg_mood ins of
        None \<Rightarrow> (''Suggested to help you start your routine'', take 2 SUGGESTION_LIBRARY)
      | Some am \<Rightarrow>
          if am < 3 \<and> entries ins \<ge> 3
          then (''Suggested because your average mood has been low this week'',
                [SUGGESTION_LIBRARY ! 0, SUGGESTION_LIBRARY ! 1])
          else (''Suggested based on your recent logs'',
                [SUGGESTION_LIBRARY ! 2, SUGGESTION_LIBRARY ! 3]))"

definition get_suggestions ::
  "int \<Rightarrow> store \<Rightarrow> datetime \<Rightarrow> datetime \<Rightarrow> string \<Rightarrow> int \<Rightarrow> error + suggestion_response"
  where
  "get_suggestions tz store now now' a days =
     bind_err (compute_insights tz store now now' a days) (\<lambda>ins.
       Inr \<lparr>reason = fst (select_suggestions ins), items = snd (select_suggestions ins),
            sr_insights = ins\<rparr>)"

text \<open>Lines 206 to 219 of \<open>insights\<close>: the summary and the actions.\<close>

definition summarize :: "insights_result \<Rightarrow> string list \<times> string list" where
  "summarize data =
     (case avg_mood data of
        None \<Rightarrow> ([''No logs yet. Start with a 2-minute breathing reset.''],
                 [''Set a daily reminder at a calm time.''])
      | Some am \<Rightarrow>
          (let sa = (if am < 3
                     then ([''Mood has been on the lower side recently.''],
                           [''Try a daily 5-minute mini meditation for 3 days.''])
                     else ([''You'' @ [CHR 0x27] @ ''re maintaining a stable mood trend.''],
                           [''Keep up the short check-ins and a micro-walk.'']))
           in if streak data \<ge> 3
              then (fst sa @ [''Nice streak: '' @ str_nat (streak data) @ '' days in a row.''],
                    snd sa)
              else sa))"

text \<open>\<open>insights(anonymous_id, range)\<close>; the parameter \<open>range\<close> is \<open>rng\<close> here.\<close>

definition insights ::
  "int \<Rightarrow> store \<Rightarrow> datetime \<Rightarrow> datetime \<Rightarrow> string \<Rightarrow> string \<Rightarrow> error + insights_response"
  where
  "insights tz store now now' a rng =
     (let days = (if rng = ''7d'' then 7 else 30)
      in bind_err (compute_insights tz store now now' a days) (\<lambda>data.
           Inr \<lparr>kpis = data, ai_summary = fst (summarize data),
                suggested_actions = snd (summarize data)\<rparr>))"

section \<open>Predicates used in the proofs\<close>

text \<open>What \<open>month_day\<close> owes for day \<open>n\<close> of a year: a month and a day within bounds that
  lie \<open>n\<close> days after 1 January.\<close>

definition md_ok :: "bool \<Rightarrow> int \<Rightarrow> bool" where
  "md_ok leap n = (let md = month_day leap n; m = fst md; d = snd md in
     1 \<le> m \<and> m \<le> 12 \<and> 1 \<le> d \<and> d \<le> 31 \<and>
     DAYS_BEFORE_MONTH ! nat m + (if m > 2 \<and> leap then 1 else 0) + d = n + 1)"

definition valid_ymd :: "int \<times> int \<times> int \<Rightarrow> bool" where
  "valid_ymd d = (case d of (year, month, day) \<Rightarrow>
     1 \<le> year \<and> 1 \<le> month \<and> month \<le> 12 \<and> 1 \<le> day \<and> day \<le> 31)"

definition small_ymd :: "int \<times> int \<times> int \<Rightarrow> bool" where
  "small_ymd d = (valid_ymd d \<and> fst d \<le> 9999)"

text \<open>The date line 151 computes for a record, where it does not raise.\<close>

definition the_date :: "int \<Rightarrow> moodlog \<Rightarrow> int" where
  "the_date tz l = (case log_date tz l of Inr d \<Rightarrow> d | Inl e \<Rightarrow> 0)"

text \<open>The key of a record in the dict \<open>by\<close>.\<close>

definition day_key :: "int \<Rightarrow> moodlog \<Rightarrow> string" where
  "day_key tz l = isoformat (the_date tz l)"

text \<open>The loop that fills \<open>by\<close>, for records that all have a date and a mood.\<close>

definition grouped ::
  "('a \<Rightarrow> string) \<Rightarrow> ('a \<Rightarrow> int) \<Rightarrow> 'a list \<Rightarrow> (string \<times> int list) list
     \<Rightarrow> (string \<times> int list) list" where
  "grouped k v xs acc = fold (\<lambda>x. setdefault_append (k x) (v x)) xs acc"

text \<open>A record on which neither line 151 nor line 162 raises.\<close>

definition log_ok :: "int \<Rightarrow> moodlog \<Rightarrow> bool" where
  "log_ok tz l =
     (mood l \<noteq> None \<and> (case log_date tz l of Inr d \<Rightarrow> True | Inl e \<Rightarrow> False))"

text \<open>A mood as the schema \<open>MoodLog\<close> of \<open>src/schemas.py\<close> admits it: an integer from 1
  to 5.\<close>

definition schema_mood :: "moodlog \<Rightarrow> bool" where
  "schema_mood l = (case mood l of None \<Rightarrow> False | Some m \<Rightarrow> 1 \<le> m \<and> m \<le> 5)"

text \<open>A record with a mood whose POSIX timestamp (\<open>logged_at\<close> read as the local time of a
  server at most a day off UTC) is not negative and has less than \<open>2 ^ 33 - 1\<close> whole
  seconds, which is before 2242-03-16: there \<open>int\<close> rounds the timestamp down and its
  float keeps the whole seconds.\<close>

definition posix_log :: "int \<Rightarrow> moodlog \<Rightarrow> bool" where
  "posix_log tz l =
     (mood l \<noteq> None \<and> \<bar>tz\<bar> \<le> 86400
      \<and> 0 \<le> logged_at l div US_PER_SECOND - tz
      \<and> logged_at l div US_PER_SECOND - tz < 8589934591)"

text \<open>The UTC calendar date of a record, as an ordinal and in ISO format.\<close>

definition utc_date :: "moodlog \<Rightarrow> int" where
  "utc_date l = date_of (logged_at l)"

definition utc_iso :: "moodlog \<Rightarrow> string" where
  "utc_iso l = isoformat (utc_date l)"

text \<open>The list \<open>by_day\<close> that line 163 makes of the dict \<open>by\<close>.\<close>

definition by_day_of :: "(string \<times> int list) list \<Rightarrow> day_entry list" where
  "by_day_of groups =
     map (\<lambda>(k, v). \<lparr>date = k, avg = py_round2 (mean v)\<rparr>) (sort_key fst groups)"

section \<open>Example stores\<close>

text \<open>The clock of the examples, 2026-11-04T10:00:00, and a collection with three users:
  \<open>u\<close> logged three times on 2026-11-04, \<open>s\<close> once a day from 2026-10-31 to 2026-11-04,
  \<open>t\<close> on 2026-11-03 and 2026-11-04; nobody else logged.\<close>

definition NOW0 :: datetime where "NOW0 = 1793786400000000"

definition DOCS0 :: "moodlog list" where
  "DOCS0 =
     [\<lparr>anonymous_id = ''u'', mood = Some 1, logged_at = 1793750400000000\<rparr>,
      \<lparr>anonymous_id = ''s'', mood = Some 4, logged_at = 1793440800000000\<rparr>,
      \<lparr>anonymous_id = ''u'', mood = Some 2, logged_at = 1793754000000000\<rparr>,
      \<lparr>anonymous_id = ''s'', mood = Some 4, logged_at = 1793527200000000\<rparr>,
      \<lparr>anonymous_id = ''t'', mood = Some 3, logged_at = 1793700000000000\<rparr>,
      \<lparr>anonymous_id = ''s'', mood = Some 5, logged_at = 1793613600000000\<rparr>,
      \<lparr>anonymous_id = ''u'', mood = Some 2, logged_at = 1793757600500000\<rparr>,
      \<lparr>anonymous_id = ''s'', mood = Some 5, logged_at = 1793700000000000\<rparr>,
      \<lparr>anonymous_id = ''t'', mood = Some 4, logged_at = 1793786400000000\<rparr>,
      \<lparr>anonymous_id = ''s'', mood = Some 5, logged_at = 1793786400000000\<rparr>]"

text \<open>The documents of user \<open>u\<close>, of user \<open>s\<close> and of user \<open>t\<close>.\<close>

definition DOCS_U :: "moodlog list" where
  "DOCS_U = filter (\<lambda>l. anonymous_id l = ''u'') DOCS0"

definition DOCS_S :: "moodlog list" where
  "DOCS_S = filter (\<lambda>l. anonymous_id l = ''s'') DOCS0"

definition DOCS_T :: "moodlog list" where
  "DOCS_T = filter (\<lambda>l. anonymous_id l = ''t'') DOCS0"

text \<open>The last microsecond of 2026-11-04 and the midnight that follows it.\<close>

definition NOW_LATE :: datetime where "NOW_LATE = 1793836799999999"

definition NOW_NEXT :: datetime where "NOW_NEXT = 1793836800000000"

text \<open>A document logged in the last microsecond of 2600-01-01, in a store that keeps
  microseconds.\<close>

definition DOC_2600 :: moodlog where
  "DOC_2600 = \<lparr>anonymous_id = ''f'', mood = Some 4, logged_at = 19880985599999999\<rparr>"

text \<open>Two documents of 1969-12-31 (UTC), logged at 12:00:00 and at 23:59:59.5.\<close>

definition DOCS_1969 :: "moodlog list" where
  "DOCS_1969 =
     [\<lparr>anonymous_id = ''n'', mood = Some 2, logged_at = - 43200000000\<rparr>,
      \<lparr>anonymous_id = ''n'', mood = Some 3, logged_at = - 500000\<rparr>]"

section \<open>The calendar: \<open>ord2ymd\<close> is inverted by \<open>ymd2ord\<close>\<close>

lemma divq: "0 \<le> r \<Longrightarrow> r < k \<Longrightarrow> a = k * q + r \<Longrightarrow> a div k = (q::int)"
  by (metis int_div_pos_eq)

lemma md_ok_all: "list_all (\<lambda>n. md_ok True n \<and> md_ok False n) [0..364]"
  by code_simp

lemma md_ok: assumes "0 \<le> n" "n \<le> 364" shows "md_ok leap n"
proof -
  have "n \<in> set [0..364]" using assms by simp
  with md_ok_all have "md_ok True n \<and> md_ok False n"
    unfolding list_all_iff by blast
  then show ?thesis by (cases leap) simp_all
qed

lemma mod_zero_top: "0 < x \<Longrightarrow> x \<le> k \<Longrightarrow> (x mod k = 0) = (x = (k::int))"
proof (cases "x = k")
  case True
  then show ?thesis by simp
next
  case False
  assume "0 < x" "x \<le> k"
  with False have "x mod k = x" by (simp add: mod_pos_pos_trivial)
  with False \<open>0 < x\<close> show ?thesis by simp
qed

lemma dby_decomp:
  assumes "0 \<le> b" "b \<le> 3" "0 \<le> c" "c \<le> 24" "0 \<le> e" "e \<le> 3"
  shows "days_before_year (a * 400 + 1 + b * 100 + c * 4 + e)
           = 146097 * a + 36524 * b + 1461 * c + 365 * e"
proof -
  let ?y = "a * 400 + b * 100 + c * 4 + e"
  have d4: "?y div 4 = 100 * a + 25 * b + c"
    by (rule divq [where r = e]) (use assms in auto)
  have d100: "?y div 100 = 4 * a + b"
    by (rule divq [where r = "c * 4 + e"]) (use assms in auto)
  have d400: "?y div 400 = a"
    by (rule divq [where r = "b * 100 + c * 4 + e"]) (use assms in auto)
  have "a * 400 + 1 + b * 100 + c * 4 + e - 1 = ?y" by simp
  then show ?thesis unfolding days_before_year_def Let_def
    using d4 d100 d400 by (simp add: algebra_simps)
qed

lemma leap_decomp:
  assumes "0 \<le> b" "b \<le> 3" "0 \<le> c" "c \<le> 24" "0 \<le> e" "e \<le> 3"
  shows "is_leap (a * 400 + 1 + b * 100 + c * 4 + e) = (e = 3 \<and> (c \<noteq> 24 \<or> b = 3))"
proof -
  let ?y = "a * 400 + 1 + b * 100 + c * 4 + e"
  have m4: "?y mod 4 = (e + 1) mod 4"
  proof -
    have "?y = (e + 1) + 4 * (a * 100 + b * 25 + c)" by simp
    then show ?thesis by (metis mod_mult_self2)
  qed
  have m100: "?y mod 100 = (c * 4 + e + 1) mod 100"
  proof -
    have "?y = (c * 4 + e + 1) + 100 * (a * 4 + b)" by simp
    then show ?thesis by (metis mod_mult_self2)
  qed
  have m400: "?y mod 400 = (b * 100 + c * 4 + e + 1) mod 400"
  proof -
    have "?y = (b * 100 + c * 4 + e + 1) + 400 * a" by simp
    then show ?thesis by (metis mod_mult_self2)
  qed
  have e4: "((e + 1) mod 4 = 0) = (e = 3)" using assms(5,6) by presburger
  have c100: "((c * 4 + e + 1) mod 100 = 0) = (c = 24 \<and> e = 3)"
  proof -
    have "0 < c * 4 + e + 1" "c * 4 + e + 1 \<le> 100" using assms by auto
    then have "((c * 4 + e + 1) mod 100 = 0) = (c * 4 + e + 1 = 100)"
      by (rule mod_zero_top)
    also have "\<dots> = (c = 24 \<and> e = 3)" using assms by arith
    finally show ?thesis .
  qed
  have b400: "((b * 100 + c * 4 + e + 1) mod 400 = 0) = (b = 3 \<and> c = 24 \<and> e = 3)"
  proof -
    have "0 < b * 100 + c * 4 + e + 1" "b * 100 + c * 4 + e + 1 \<le> 400" using assms by auto
    then have "((b * 100 + c * 4 + e + 1) mod 400 = 0) = (b * 100 + c * 4 + e + 1 = 400)"
      by (rule mod_zero_top)
    also have "\<dots> = (b = 3 \<and> c = 24 \<and> e = 3)" using assms by arith
    finally show ?thesis .
  qed
  show ?thesis unfolding is_leap_def m4 m100 m400 e4 c100 b400 by auto
qed

lemma ord2ymd_props:
  assumes n1: "1 \<le> n"
  shows "valid_ymd (ord2ymd n) \<and> ymd2ord (ord2ymd n) = n
         \<and> (n \<le> 3652059 \<longrightarrow> fst (ord2ymd n) \<le> 9999)"
proof -
  define n0 where "n0 = n - 1"
  define a where "a = n0 div 146097"
  define r1 where "r1 = n0 mod 146097"
  define b where "b = r1 div 36524"
  define r2 where "r2 = r1 mod 36524"
  define c where "c = r2 div 1461"
  define r3 where "r3 = r2 mod 1461"
  define e where "e = r3 div 365"
  define r4 where "r4 = r3 mod 365"
  define L where "L = (e = 3 \<and> (c \<noteq> 24 \<or> b = 3))"
  have n0: "0 \<le> n0" "n = n0 + 1" using n1 by (simp_all add: n0_def)
  have A: "n0 = 146097 * a + r1" "0 \<le> r1" "r1 < 146097"
    by (simp_all add: a_def r1_def)
  have B: "r1 = 36524 * b + r2" "0 \<le> r2" "r2 < 36524"
    by (simp_all add: b_def r2_def)
  have C: "r2 = 1461 * c + r3" "0 \<le> r3" "r3 < 1461"
    by (simp_all add: c_def r3_def)
  have E: "r3 = 365 * e + r4" "0 \<le> r4" "r4 < 365"
    by (simp_all add: e_def r4_def)
  have a0: "0 \<le> a" using n0 by (simp add: a_def pos_imp_zdiv_nonneg_iff)
  have b0: "0 \<le> b" using A by (simp add: b_def pos_imp_zdiv_nonneg_iff)
  have c0: "0 \<le> c" using B by (simp add: c_def pos_imp_zdiv_nonneg_iff)
  have e0: "0 \<le> e" using C by (simp add: e_def pos_imp_zdiv_nonneg_iff)
  have b4: "b \<le> 4" using A B by linarith
  have c24: "c \<le> 24" using B C by linarith
  have e4: "e \<le> 4" using C E by linarith
  have eq: "ord2ymd n =
      (if e = 4 \<or> b = 4 then (a * 400 + 1 + b * 100 + c * 4 + e - 1, 12, 31)
       else (a * 400 + 1 + b * 100 + c * 4 + e, fst (month_day L r4), snd (month_day L r4)))"
    by (simp add: ord2ymd_def Let_def DI400Y_def DI100Y_def DI4Y_def
        n0_def a_def r1_def b_def r2_def c_def r3_def e_def r4_def L_def)
  show ?thesis
  proof (cases "b = 4")
    case True
    then have z: "r2 = 0" "c = 0" "r3 = 0" "e = 0" "r4 = 0"
      using A B C E c0 e0 by linarith+
    define Y where "Y = a * 400 + 1 + 3 * 100 + 24 * 4 + 3"
    have o: "ord2ymd n = (Y, 12, 31)"
      unfolding eq Y_def using True z by simp
    have dby: "days_before_year Y = 146097 * a + 36524 * 3 + 1461 * 24 + 365 * 3"
      unfolding Y_def by (rule dby_decomp) simp_all
    have lp: "is_leap Y"
      unfolding Y_def by (subst leap_decomp) simp_all
    have nn: "n = 146097 * a + 146097" using n0 A B True z by simp
    have ord: "ymd2ord (Y, 12, 31) = n"
      by (simp add: ymd2ord_def days_before_month_def DAYS_BEFORE_MONTH_def dby lp nn)
    have "n \<le> 3652059 \<longrightarrow> Y \<le> 9999" unfolding Y_def using nn a0 by linarith
    moreover have "1 \<le> Y" unfolding Y_def using a0 by simp
    ultimately show ?thesis unfolding o using ord
      by (simp add: valid_ymd_def)
  next
    case b3: False
    then have b3': "b \<le> 3" using b4 by simp
    show ?thesis
    proof (cases "e = 4")
      case True
      then have z: "r4 = 0" using E C by linarith
      have c23: "c \<le> 23" using B C E True by linarith
      define Y where "Y = a * 400 + 1 + b * 100 + c * 4 + 3"
      have o: "ord2ymd n = (Y, 12, 31)"
        unfolding eq Y_def using True by simp
      have dby: "days_before_year Y = 146097 * a + 36524 * b + 1461 * c + 365 * 3"
        unfolding Y_def by (rule dby_decomp) (use b0 b3' c0 c24 in simp_all)
      have lp: "is_leap Y"
        unfolding Y_def by (subst leap_decomp) (use b0 b3' c0 c24 c23 in simp_all)
      have nn: "n = 146097 * a + 36524 * b + 1461 * c + 1461" using n0 A B C E True z by simp
      have ord: "ymd2ord (Y, 12, 31) = n"
        by (simp add: ymd2ord_def days_before_month_def DAYS_BEFORE_MONTH_def dby lp nn)
      have "n \<le> 3652059 \<longrightarrow> Y \<le> 9999"
        unfolding Y_def using nn a0 b0 b3' c0 c23 by linarith
      moreover have "1 \<le> Y" unfolding Y_def using a0 b0 c0 by simp
      ultimately show ?thesis unfolding o using ord
        by (simp add: valid_ymd_def)
    next
      case False
      then have e3: "e \<le> 3" using e4 by simp
      have r4: "0 \<le> r4" "r4 \<le> 364" using E by simp_all
      have md: "md_ok L r4" by (rule md_ok) (use r4 in simp_all)
      define Y where "Y = a * 400 + 1 + b * 100 + c * 4 + e"
      define M where "M = fst (month_day L r4)"
      define D where "D = snd (month_day L r4)"
      have o: "ord2ymd n = (Y, M, D)"
        unfolding eq Y_def M_def D_def using False b3 by simp
      have dby: "days_before_year Y = 146097 * a + 36524 * b + 1461 * c + 365 * e"
        unfolding Y_def by (rule dby_decomp) (use b0 b3' c0 c24 e0 e3 in simp_all)
      have lp: "is_leap Y = L"
        unfolding L_def Y_def by (rule leap_decomp) (use b0 b3' c0 c24 e0 e3 in simp_all)
      have nn: "n = 146097 * a + 36524 * b + 1461 * c + 365 * e + r4 + 1"
        using n0 A B C E by simp
      have mdf: "1 \<le> M" "M \<le> 12" "1 \<le> D" "D \<le> 31"
        "DAYS_BEFORE_MONTH ! nat M + (if M > 2 \<and> L then 1 else 0) + D = r4 + 1"
        using md unfolding md_ok_def Let_def M_def D_def by simp_all
      have ord: "ymd2ord (Y, M, D) = n"
        using mdf(5) by (simp add: ymd2ord_def days_before_month_def dby lp nn)
      have "n \<le> 3652059 \<longrightarrow> Y \<le> 9999"
        unfolding Y_def using nn a0 b0 b3' c0 c24 e0 e3 r4 by linarith
      moreover have "1 \<le> Y" unfolding Y_def using a0 b0 c0 e0 by simp
      ultimately show ?thesis unfolding o using ord mdf(1-4)
        by (simp add: valid_ymd_def)
    qed
  qed
qed

section \<open>ISO dates are distinct for distinct days\<close>

lemma digit_inj: "a < 10 \<Longrightarrow> b < 10 \<Longrightarrow> digit a = digit b \<Longrightarrow> a = b"
proof -
  assume a: "a < 10" "b < 10" "digit a = digit b"
  have "distinct ''0123456789''" by simp
  moreover have "a < length ''0123456789''" "b < length ''0123456789''" using a by simp_all
  ultimately show "a = b" using a(3) unfolding digit_def by (simp only: nth_eq_iff_index_eq)
qed

lemma digit_0: "digit 0 = CHR ''0''"
  by (simp add: digit_def)

lemma div_mod_10_eq: "x div 10 = y div 10 \<Longrightarrow> x mod 10 = y mod 10 \<Longrightarrow> x = (y::nat)"
  by (metis div_mult_mod_eq)

lemma str_nat_1: "n < 10 \<Longrightarrow> str_nat n = [digit n]"
  by (subst str_nat.simps) simp

lemma str_nat_step: "10 \<le> n \<Longrightarrow> str_nat n = str_nat (n div 10) @ [digit (n mod 10)]"
  by (subst str_nat.simps) simp

lemma str_nat_2: "10 \<le> n \<Longrightarrow> n < 100 \<Longrightarrow> str_nat n = [digit (n div 10), digit (n mod 10)]"
  by (simp add: str_nat_step str_nat_1)

lemma str_nat_3: "100 \<le> n \<Longrightarrow> n < 1000 \<Longrightarrow>
   str_nat n = [digit (n div 100), digit (n div 10 mod 10), digit (n mod 10)]"
proof -
  assume a: "100 \<le> n" "n < 1000"
  have d: "n div 10 div 10 = n div 100" by (simp add: div_mult2_eq [symmetric])
  have "10 \<le> n div 10" "n div 10 < 100" using a by simp_all
  then have "str_nat (n div 10) = [digit (n div 10 div 10), digit (n div 10 mod 10)]"
    by (rule str_nat_2)
  then show ?thesis using a by (simp add: str_nat_step d)
qed

lemma str_nat_4: "1000 \<le> n \<Longrightarrow> n < 10000 \<Longrightarrow>
   str_nat n = [digit (n div 1000), digit (n div 100 mod 10), digit (n div 10 mod 10), digit (n mod 10)]"
proof -
  assume a: "1000 \<le> n" "n < 10000"
  have d: "n div 10 div 100 = n div 1000" "n div 10 div 10 = n div 100"
    by (simp_all add: div_mult2_eq [symmetric])
  have "100 \<le> n div 10" "n div 10 < 1000" using a by simp_all
  then have "str_nat (n div 10)
      = [digit (n div 10 div 100), digit (n div 10 div 10 mod 10), digit (n div 10 mod 10)]"
    by (rule str_nat_3)
  then show ?thesis using a by (simp add: str_nat_step d)
qed

lemma zfill_2: "n < 100 \<Longrightarrow> zfill 2 (str_nat n) = [digit (n div 10), digit (n mod 10)]"
proof (cases "n < 10")
  case True
  then show ?thesis by (simp add: str_nat_1 zfill_def digit_0)
next
  case False
  assume "n < 100"
  with False show ?thesis by (simp add: str_nat_2 zfill_def)
qed

lemma zfill_4: "n < 10000 \<Longrightarrow>
   zfill 4 (str_nat n)
     = [digit (n div 1000), digit (n div 100 mod 10), digit (n div 10 mod 10), digit (n mod 10)]"
proof -
  assume n: "n < 10000"
  have r3: "replicate 3 c = [c, c, c]" and r2: "replicate 2 c = [c, c]" for c :: char
    by (simp_all add: numeral_3_eq_3 numeral_2_eq_2)
  consider "n < 10" | "10 \<le> n" "n < 100" | "100 \<le> n" "n < 1000" | "1000 \<le> n" by linarith
  then show ?thesis
  proof cases
    case 1
    then show ?thesis by (simp add: str_nat_1 zfill_def digit_0 r3)
  next
    case 2
    then show ?thesis by (simp add: str_nat_2 zfill_def digit_0 r2)
  next
    case 3
    then show ?thesis by (simp add: str_nat_3 zfill_def digit_0)
  next
    case 4
    then show ?thesis using n by (simp add: str_nat_4 zfill_def)
  qed
qed

lemma two_digits_inj:
  assumes "n < 100" "m < 100" "zfill 2 (str_nat n) = zfill 2 (str_nat m)"
  shows "n = m"
proof -
  have "digit (n div 10) = digit (m div 10)" "digit (n mod 10) = digit (m mod 10)"
    using assms by (simp_all add: zfill_2)
  moreover have "n div 10 < 10" "m div 10 < 10" "n mod 10 < 10" "m mod 10 < 10"
    using assms(1,2) by simp_all
  ultimately have "n div 10 = m div 10" "n mod 10 = m mod 10"
    by (auto elim: digit_inj [rotated 2])
  then show ?thesis by (rule div_mod_10_eq)
qed

lemma four_digits_inj:
  assumes "n < 10000" "m < 10000" "zfill 4 (str_nat n) = zfill 4 (str_nat m)"
  shows "n = m"
proof -
  have "digit (n div 1000) = digit (m div 1000)" "digit (n div 100 mod 10) = digit (m div 100 mod 10)"
    "digit (n div 10 mod 10) = digit (m div 10 mod 10)" "digit (n mod 10) = digit (m mod 10)"
    using assms by (simp_all add: zfill_4)
  moreover have "n div 1000 < 10" "m div 1000 < 10" "n div 100 mod 10 < 10" "m div 100 mod 10 < 10"
    "n div 10 mod 10 < 10" "m div 10 mod 10 < 10" "n mod 10 < 10" "m mod 10 < 10"
    using assms(1,2) by simp_all
  ultimately have e: "n div 1000 = m div 1000" "n div 100 mod 10 = m div 100 mod 10"
    "n div 10 mod 10 = m div 10 mod 10" "n mod 10 = m mod 10"
    by (auto elim: digit_inj [rotated 2])
  have d: "k div 100 div 10 = k div 1000" "k div 10 div 10 = k div 100" for k :: nat
    by (simp_all add: div_mult2_eq [symmetric])
  have "n div 100 = m div 100"
    by (rule div_mod_10_eq) (simp_all add: d e)
  then have "n div 10 = m div 10"
    by (rule_tac div_mod_10_eq) (simp_all add: d e)
  then show ?thesis
    by (rule_tac div_mod_10_eq) (simp_all add: e)
qed

lemma isoformat_ymd_inj:
  assumes "small_ymd p" "small_ymd q" "isoformat_ymd p = isoformat_ymd q"
  shows "p = q"
proof -
  obtain y m d where p: "p = (y, m, d)" by (cases p)
  obtain y' m' d' where q: "q = (y', m', d')" by (cases q)
  have b: "nat y < 10000" "nat m < 100" "nat d < 100" "nat y' < 10000" "nat m' < 100" "nat d' < 100"
    and c: "0 \<le> y" "0 \<le> m" "0 \<le> d" "0 \<le> y'" "0 \<le> m'" "0 \<le> d'"
    using assms(1,2) unfolding p q small_ymd_def valid_ymd_def by auto
  have "zfill 4 (str_nat (nat y)) = zfill 4 (str_nat (nat y')) \<and>
        zfill 2 (str_nat (nat m)) = zfill 2 (str_nat (nat m')) \<and>
        zfill 2 (str_nat (nat d)) = zfill 2 (str_nat (nat d'))"
    using assms(3) b unfolding p q isoformat_ymd_def
    by (simp add: zfill_2 zfill_4)
  then have "nat y = nat y'" "nat m = nat m'" "nat d = nat d'"
    using b by (auto elim: four_digits_inj [rotated 2] two_digits_inj [rotated 2])
  then have "y = y'" "m = m'" "d = d'" using c by linarith+
  then show ?thesis unfolding p q by simp
qed

lemma ord2ymd_small: "MINORD \<le> n \<Longrightarrow> n \<le> MAXORD \<Longrightarrow> small_ymd (ord2ymd n)"
  using ord2ymd_props [of n] by (simp add: small_ymd_def MINORD_def MAXORD_def)

lemma isoformat_inj:
  assumes "MINORD \<le> n" "n \<le> MAXORD" "MINORD \<le> m" "m \<le> MAXORD" "isoformat n = isoformat m"
  shows "n = m"
proof -
  have "small_ymd (ord2ymd n)" "small_ymd (ord2ymd m)"
    using assms(1-4) by (simp_all add: ord2ymd_small)
  then have "ord2ymd n = ord2ymd m"
    using assms(5) unfolding isoformat_def by (rule isoformat_ymd_inj)
  then have "ymd2ord (ord2ymd n) = ymd2ord (ord2ymd m)" by simp
  then show ?thesis using ord2ymd_props [of n] ord2ymd_props [of m] assms(1,3)
    by (simp add: MINORD_def)
qed

section \<open>Floats: rounding keeps a value between two floats\<close>

lemma round_half_even_ge: "of_int a \<le> x \<Longrightarrow> a \<le> round_half_even x"
proof -
  assume "of_int a \<le> x"
  then have "a \<le> \<lfloor>x\<rfloor>" by (simp add: le_floor_iff)
  then show ?thesis by (simp add: round_half_even_def Let_def)
qed

lemma round_half_even_le: "x \<le> of_int b \<Longrightarrow> round_half_even x \<le> b"
proof -
  assume b: "x \<le> of_int b"
  show ?thesis
  proof (cases "x = of_int b")
    case True
    then show ?thesis by (simp add: round_half_even_def Let_def)
  next
    case False
    with b have "x < of_int b" by simp
    then have "\<lfloor>x\<rfloor> < b" by (simp add: floor_less_iff)
    then show ?thesis by (simp add: round_half_even_def Let_def)
  qed
qed

lemma pow2_bitlen:
  assumes "0 < p"
  shows "(2::rat) powi (bitlen p - 1) \<le> of_int p" and "(of_int p :: rat) < 2 powi bitlen p"
proof -
  from bitlen_bounds [OF assms] have lo: "2 ^ nat (bitlen p - 1) \<le> p"
    and hi: "p < 2 ^ nat (bitlen p)" by simp_all
  have b1: "1 \<le> bitlen p" using assms by (simp add: bitlen_alt_def)
  have "(2::rat) powi (bitlen p - 1) = of_int (2 ^ nat (bitlen p - 1))"
    using b1 by (simp add: power_int_def)
  also have "\<dots> \<le> of_int p" using lo by (simp only: of_int_le_iff)
  finally show "(2::rat) powi (bitlen p - 1) \<le> of_int p" .
  have "(of_int p :: rat) < of_int (2 ^ nat (bitlen p))" using hi by (simp only: of_int_less_iff)
  also have "\<dots> = 2 powi bitlen p" using b1 by (simp add: power_int_def)
  finally show "(of_int p :: rat) < 2 powi bitlen p" .
qed

lemma floor_log2_le:
  assumes "0 < x"
  shows "2 powi floor_log2 x \<le> x"
proof -
  obtain p q where pq: "quotient_of x = (p, q)" by (cases "quotient_of x")
  then have q: "0 < q" by (rule quotient_of_denom_pos)
  have x: "x = of_int p / of_int q" using pq by (rule quotient_of_div)
  then have p: "0 < p" using assms q by (simp add: zero_less_divide_iff)
  define d where "d = bitlen p - bitlen q"
  show ?thesis
  proof (cases "2 powi d \<le> x")
    case True
    then show ?thesis by (simp add: floor_log2_def pq d_def)
  next
    case False
    then have e: "floor_log2 x = d - 1" by (simp add: floor_log2_def pq d_def)
    have "(2::rat) powi (d - 1) = 2 powi (bitlen p - 1) / 2 powi bitlen q"
      by (simp add: d_def power_int_diff)
    also have "\<dots> \<le> of_int p / of_int q"
      using pow2_bitlen [OF p] pow2_bitlen [OF q] p q
      by (intro frac_le) simp_all
    finally show ?thesis using e x by simp
  qed
qed

lemma floor_log2_less:
  assumes "0 < x" and "x < 2 powi k"
  shows "floor_log2 x < k"
proof (rule ccontr)
  assume "\<not> floor_log2 x < k"
  then have "k \<le> floor_log2 x" by simp
  then have "(2::rat) powi k \<le> 2 powi floor_log2 x" by (intro power_int_increasing) simp_all
  with floor_log2_le [OF assms(1)] assms(2) show False by simp
qed

lemma binary64_bounds:
  assumes "x \<noteq> 0" and "e = max (floor_log2 \<bar>x\<bar>) (- 1022)"
    and "of_int a * 2 powi (e - 52) \<le> x" and "x \<le> of_int b * 2 powi (e - 52)"
  shows "of_int a * 2 powi (e - 52) \<le> binary64 x \<and> binary64 x \<le> of_int b * 2 powi (e - 52)"
proof -
  define u :: rat where "u = 2 powi (e - 52)"
  have u: "0 < u" by (simp add: u_def)
  have y: "binary64 x = of_int (round_half_even (x / u)) * u"
    using assms(1,2) by (simp add: binary64_def Let_def u_def)
  have "of_int a \<le> x / u" using assms(3) u by (simp add: u_def pos_le_divide_eq)
  then have a: "a \<le> round_half_even (x / u)" by (rule round_half_even_ge)
  have "x / u \<le> of_int b" using assms(4) u by (simp add: u_def pos_divide_le_eq)
  then have b: "round_half_even (x / u) \<le> b" by (rule round_half_even_le)
  have "of_int a * u \<le> of_int (round_half_even (x / u)) * u"
    using a u by (simp only: mult_le_cancel_right_pos of_int_le_iff)
  moreover have "of_int (round_half_even (x / u)) * u \<le> of_int b * u"
    using b u by (simp only: mult_le_cancel_right_pos of_int_le_iff)
  ultimately show ?thesis unfolding y u_def by simp
qed

text \<open>A value below \<open>2 powi n\<close> between two multiples of \<open>2 powi k\<close>, where
  \<open>n \<le> k + 53\<close>: the multiples are floats, and rounding keeps the value between them.\<close>

lemma binary64_grid:
  assumes lo: "of_int a * 2 powi k \<le> x" and hi: "x \<le> of_int b * 2 powi k"
    and x: "0 \<le> x" "x < 2 powi n" and k: "- 1074 \<le> k" "n \<le> k + 53"
  shows "of_int a * 2 powi k \<le> binary64 x \<and> binary64 x \<le> of_int b * 2 powi k"
proof (cases "x = 0")
  case True
  then show ?thesis using lo hi by (simp add: binary64_def)
next
  case False
  then have pos: "0 < x" using x(1) by simp
  define e where "e = max (floor_log2 \<bar>x\<bar>) (- 1022)"
  have "floor_log2 x < n" using pos x(2) by (rule floor_log2_less)
  then have e: "e - 52 \<le> k" using k pos by (simp add: e_def)
  define j where "j = nat (k - (e - 52))"
  have kj: "(2::rat) powi k = of_int (2 ^ j) * 2 powi (e - 52)"
  proof -
    have "(2::rat) powi k = 2 powi (int j + (e - 52))" using e by (simp add: j_def)
    also have "\<dots> = 2 powi int j * 2 powi (e - 52)" by (rule power_int_add) simp
    finally show ?thesis by simp
  qed
  have "of_int (a * 2 ^ j) * 2 powi (e - 52) \<le> binary64 x
        \<and> binary64 x \<le> of_int (b * 2 ^ j) * 2 powi (e - 52)"
    using False e_def
  proof (rule binary64_bounds)
    show "of_int (a * 2 ^ j) * 2 powi (e - 52) \<le> x" using lo unfolding kj by (simp add: mult.assoc)
    show "x \<le> of_int (b * 2 ^ j) * 2 powi (e - 52)" using hi unfolding kj by (simp add: mult.assoc)
  qed
  then show ?thesis unfolding kj by (simp add: mult.assoc)
qed

lemma binary64_fraction:
  assumes "0 \<le> us" "us < 1000000"
  shows "0 \<le> binary64 (of_int us / 1000000) \<and> binary64 (of_int us / 1000000) \<le> 1 - 2 powi (- 20)"
proof -
  define x :: rat where "x = of_int us / 1000000"
  have "us \<le> 999999" using assms by simp
  then have "(of_int us :: rat) \<le> 999999" by (metis of_int_le_iff of_int_numeral)
  then have x1: "x \<le> 999999 / 1000000" by (simp add: x_def)
  have p: "(2::rat) powi (- 20) = 1 / 1048576" by (simp add: power_int_minus_divide)
  have "of_int 0 * 2 powi (- 20) \<le> binary64 x \<and> binary64 x \<le> of_int 1048575 * 2 powi (- 20)"
  proof (rule binary64_grid [where n = 0])
    show "of_int 0 * 2 powi (- 20) \<le> x" using assms by (simp add: x_def)
    show "x \<le> of_int 1048575 * 2 powi (- 20)" using x1 unfolding p by simp
    show "0 \<le> x" using assms by (simp add: x_def)
    show "x < 2 powi 0" using x1 by simp
  qed simp_all
  then show ?thesis unfolding p x_def by simp
qed

lemma binary64_seconds:
  assumes s: "0 \<le> s" "s < 8589934591" and us: "0 \<le> us" "us < 1000000"
  shows "0 \<le> binary64 (of_int s + binary64 (of_int us / 1000000))
         \<and> \<lfloor>binary64 (of_int s + binary64 (of_int us / 1000000))\<rfloor> = s"
proof -
  define f where "f = binary64 (of_int us / 1000000)"
  define x where "x = of_int s + f"
  have p: "(2::rat) powi (- 20) = 1 / 1048576" by (simp add: power_int_minus_divide)
  have f: "0 \<le> f" "f \<le> 1 - 1 / 1048576"
    using binary64_fraction [OF us] unfolding p f_def by simp_all
  have s': "(of_int s :: rat) \<le> 8589934590"
  proof -
    have "s \<le> 8589934590" using s by simp
    then show ?thesis by (metis of_int_le_iff of_int_numeral)
  qed
  have s0: "(0::rat) \<le> of_int s" using s by simp
  have "of_int (s * 1048576) * 2 powi (- 20) \<le> binary64 x
        \<and> binary64 x \<le> of_int (s * 1048576 + 1048575) * 2 powi (- 20)"
  proof (rule binary64_grid [where n = 33])
    show "of_int (s * 1048576) * 2 powi (- 20) \<le> x" using f unfolding p x_def by simp
    show "x \<le> of_int (s * 1048576 + 1048575) * 2 powi (- 20)" using f unfolding p x_def by simp
    show "0 \<le> x" using f s0 unfolding x_def by linarith
    show "x < 2 powi 33" using f s' unfolding x_def by simp
  qed simp_all
  then have y: "of_int s \<le> binary64 x" "binary64 x \<le> of_int s + (1 - 1 / 1048576)"
    unfolding p by simp_all
  have "\<lfloor>binary64 x\<rfloor> = s" using y by (intro floor_unique) linarith+
  moreover have "0 \<le> binary64 x" using y(1) s0 by linarith
  ultimately show ?thesis unfolding x_def f_def by simp
qed

section \<open>The loops of \<open>compute_insights\<close>\<close>

subsection \<open>Exceptions\<close>

lemma bind_err_simps [simp]:
  "bind_err (Inl e) f = Inl e" "bind_err (Inr x) f = f x"
  by (simp_all add: bind_err_def)

lemma bind_err_Inr_iff: "bind_err r f = Inr y \<longleftrightarrow> (\<exists>x. r = Inr x \<and> f x = Inr y)"
  by (cases r) simp_all

lemma log_date_the_date: "log_date tz l = Inr d \<Longrightarrow> the_date tz l = d"
  by (simp add: the_date_def)

lemma log_dates_Inr:
  "log_dates tz logs = Inr ds \<Longrightarrow>
     ds = map (the_date tz) logs \<and> (\<forall>l\<in>set logs. log_date tz l = Inr (the_date tz l))"
proof (induction logs arbitrary: ds)
  case Nil
  then show ?case by simp
next
  case (Cons l ls)
  from Cons.prems obtain d ds' where d: "log_date tz l = Inr d"
    and ds': "log_dates tz ls = Inr ds'" and ds: "ds = d # ds'"
    by (auto simp: bind_err_Inr_iff)
  have "the_date tz l = d" using d by (rule log_date_the_date)
  with Cons.IH [OF ds'] d ds show ?case by simp
qed

lemma log_dates_total:
  "\<forall>l\<in>set logs. log_date tz l = Inr (the_date tz l) \<Longrightarrow>
     log_dates tz logs = Inr (map (the_date tz) logs)"
  by (induction logs) simp_all

lemma group_by_day_Inr:
  "group_by_day tz logs acc = Inr g \<Longrightarrow>
     (\<forall>l\<in>set logs. log_date tz l = Inr (the_date tz l) \<and> mood l \<noteq> None)
     \<and> g = grouped (day_key tz) get_mood logs acc"
proof (induction logs arbitrary: acc)
  case Nil
  then show ?case by (simp add: grouped_def)
next
  case (Cons l ls)
  from Cons.prems obtain d m where d: "log_date tz l = Inr d" and m: "mood l = Some m"
    and rest: "group_by_day tz ls (setdefault_append (isoformat d) m acc) = Inr g"
    by (auto simp: bind_err_Inr_iff split: option.splits)
  have k: "day_key tz l = isoformat d" "get_mood l = m" "the_date tz l = d"
    using d m by (simp_all add: day_key_def the_date_def get_mood_def)
  from Cons.IH [OF rest] d m k show ?case
    by (simp add: grouped_def)
qed

lemma group_by_day_total:
  "\<forall>l\<in>set logs. log_date tz l = Inr (the_date tz l) \<and> mood l \<noteq> None \<Longrightarrow>
     group_by_day tz logs acc = Inr (grouped (day_key tz) get_mood logs acc)"
proof (induction logs arbitrary: acc)
  case Nil
  then show ?case by (simp add: grouped_def)
next
  case (Cons l ls)
  then obtain m where m: "mood l = Some m" by auto
  have d: "log_date tz l = Inr (the_date tz l)" using Cons.prems by simp
  have "group_by_day tz ls (setdefault_append (day_key tz l) (get_mood l) acc)
          = Inr (grouped (day_key tz) get_mood ls (setdefault_append (day_key tz l) (get_mood l) acc))"
    using Cons by simp
  then show ?case using m d by (simp add: grouped_def day_key_def get_mood_def)
qed

subsection \<open>The dict \<open>by\<close>\<close>

lemma sda_keys:
  "map fst (setdefault_append k m g) = (if k \<in> fst ` set g then map fst g else map fst g @ [k])"
  by (induction g) (auto simp: rev_image_eqI)

lemma sda_key_set: "fst ` set (setdefault_append k m g) = insert k (fst ` set g)"
proof -
  have "set (map fst (setdefault_append k m g)) = insert k (fst ` set g)"
    unfolding sda_keys by auto
  then show ?thesis by simp
qed

lemma sda_distinct: "distinct (map fst g) \<Longrightarrow> distinct (map fst (setdefault_append k m g))"
  by (simp add: sda_keys)

lemma sda_map_of:
  "map_of (setdefault_append k m g) k' =
     (if k' = k then Some (case map_of g k of None \<Rightarrow> [m] | Some v \<Rightarrow> v @ [m]) else map_of g k')"
  by (induction g) auto

lemma grouped_Nil [simp]: "grouped k v [] acc = acc"
  by (simp add: grouped_def)

lemma grouped_Cons [simp]:
  "grouped k v (x # xs) acc = grouped k v xs (setdefault_append (k x) (v x) acc)"
  by (simp add: grouped_def)

lemma grouped_distinct:
  "distinct (map fst acc) \<Longrightarrow> distinct (map fst (grouped k v xs acc))"
  by (induction xs arbitrary: acc) (simp_all add: sda_distinct)

lemma grouped_keys:
  "set (map fst (grouped k v xs acc)) = fst ` set acc \<union> k ` set xs"
  by (induction xs arbitrary: acc) (simp_all add: sda_key_set)

lemma grouped_map_of_Some:
  "map_of acc key = Some old \<Longrightarrow>
     map_of (grouped k v xs acc) key = Some (old @ map v (filter (\<lambda>x. k x = key) xs))"
proof (induction xs arbitrary: acc old)
  case Nil
  then show ?case by simp
next
  case (Cons x xs)
  show ?case
  proof (cases "k x = key")
    case True
    have "map_of (setdefault_append (k x) (v x) acc) key = Some (old @ [v x])"
      using Cons.prems True by (simp add: sda_map_of)
    from Cons.IH [OF this] True show ?thesis by simp
  next
    case False
    have "map_of (setdefault_append (k x) (v x) acc) key = Some old"
      using Cons.prems False by (simp add: sda_map_of)
    from Cons.IH [OF this] False show ?thesis by simp
  qed
qed

lemma grouped_map_of_None:
  "map_of acc key = None \<Longrightarrow> key \<in> k ` set xs \<Longrightarrow>
     map_of (grouped k v xs acc) key = Some (map v (filter (\<lambda>x. k x = key) xs))"
proof (induction xs arbitrary: acc)
  case Nil
  then show ?case by simp
next
  case (Cons x xs)
  show ?case
  proof (cases "k x = key")
    case True
    have "map_of (setdefault_append (k x) (v x) acc) key = Some [v x]"
      using Cons.prems(1) True by (simp add: sda_map_of)
    from grouped_map_of_Some [OF this] True show ?thesis by simp
  next
    case False
    have n: "map_of (setdefault_append (k x) (v x) acc) key = None"
      using Cons.prems(1) False by (simp add: sda_map_of)
    have "key \<in> k ` set xs" using Cons.prems(2) False by auto
    from Cons.IH [OF n this] False show ?thesis by simp
  qed
qed


subsection \<open>Dates\<close>

lemma date_of_seconds: "date_of (s * US_PER_SECOND) = s div 86400 + EPOCHORD"
proof -
  have "s * 1000000 div 86400000000 = s div 86400"
  proof -
    have "s * 1000000 div (1000000 * 86400) = (s * 1000000 div 1000000) div 86400"
      by (rule zdiv_zmult2_eq) simp
    then show ?thesis by simp
  qed
  then show ?thesis by (simp add: date_of_def US_PER_SECOND_def US_PER_DAY_def)
qed

lemma date_of_floor_second: "date_of (dt div US_PER_SECOND * US_PER_SECOND) = date_of dt"
proof -
  have "dt div 86400000000 = dt div 1000000 div 86400"
  proof -
    have "dt div (1000000 * 86400) = dt div 1000000 div 86400"
      by (rule zdiv_zmult2_eq) simp
    then show ?thesis by simp
  qed
  then show ?thesis
    unfolding date_of_seconds by (simp add: date_of_def US_PER_SECOND_def US_PER_DAY_def)
qed

lemma date_of_range:
  assumes "MINDT + US_PER_DAY \<le> dt" and "dt \<le> MAXDT"
  shows "MINORD < date_of dt \<and> date_of dt \<le> MAXORD"
proof -
  have "(MINORD - EPOCHORD + 1) * 86400000000 div 86400000000 \<le> dt div 86400000000"
  proof (rule zdiv_mono1)
    show "(MINORD - EPOCHORD + 1) * 86400000000 \<le> dt"
      using assms(1) by (simp add: MINDT_def US_PER_DAY_def algebra_simps)
  qed simp
  then have lo: "MINORD - EPOCHORD + 1 \<le> dt div 86400000000" by simp
  have "dt < (MAXORD - EPOCHORD + 1) * 86400000000"
    using assms(2) by (simp add: MAXDT_def US_PER_DAY_def)
  then have "dt div 86400000000 < MAXORD - EPOCHORD + 1"
    by (simp add: div_less_iff_less_mult)
  with lo show ?thesis by (simp add: date_of_def US_PER_DAY_def)
qed

lemma log_date_Inr:
  assumes "log_date tz l = Inr d"
  obtains x local where "timestamp tz (logged_at l) = Inr x"
    and "fromtimestamp tz (py_int x) = Inr local" and "d = date_of local"
  using assms by (auto simp: log_date_def bind_err_Inr_iff)

lemma log_date_range:
  assumes "log_date tz l = Inr d"
  shows "MINORD < d \<and> d \<le> MAXORD"
proof -
  from assms obtain x local where "fromtimestamp tz (py_int x) = Inr local"
    and d: "d = date_of local" by (rule log_date_Inr)
  then have "MINDT + US_PER_DAY \<le> local \<and> local \<le> MAXDT"
    by (auto simp: fromtimestamp_def Let_def split: if_splits)
  then show ?thesis unfolding d by (simp add: date_of_range)
qed


lemma timestamp_posix:
  assumes "\<bar>tz\<bar> \<le> 86400" and "0 \<le> dt div US_PER_SECOND - tz"
    and "dt div US_PER_SECOND - tz < 8589934591"
  shows "\<exists>x. timestamp tz dt = Inr x \<and> py_int x = dt div US_PER_SECOND - tz"
proof -
  define t where "t = dt div 1000000"
  have us: "0 \<le> dt mod US_PER_SECOND" "dt mod US_PER_SECOND < 1000000"
    by (simp_all add: US_PER_SECOND_def)
  have a: "0 \<le> t - tz" "t - tz < 8589934591" using assms(2,3) by (simp_all add: t_def US_PER_SECOND_def)
  have tzb: "- 86400 \<le> tz" "tz \<le> 86400" using assms(1) by simp_all
  have "MINDT \<le> (t + tz) * 1000000 \<and> (t + tz) * 1000000 \<le> MAXDT
      \<and> MINDT \<le> (t - 86400) * 1000000"
    using tzb a
    by (simp add: MINDT_def MAXDT_def MINORD_def MAXORD_def EPOCHORD_def US_PER_DAY_def)
  then have ts: "timestamp tz dt
      = Inr (binary64 (of_int (t - tz) + binary64 (of_int (dt mod US_PER_SECOND) / 1000000)))"
    by (simp add: timestamp_def Let_def t_def US_PER_SECOND_def)
  from binary64_seconds [OF a us] show ?thesis
    unfolding ts by (simp add: py_int_def t_def US_PER_SECOND_def)
qed

lemma log_date_posix:
  assumes "\<bar>tz\<bar> \<le> 86400" and "0 \<le> logged_at l div US_PER_SECOND - tz"
    and "logged_at l div US_PER_SECOND - tz < 8589934591"
  shows "log_date tz l = Inr (utc_date l)"
proof -
  define dt where "dt = logged_at l"
  define t where "t = dt div 1000000"
  from timestamp_posix [OF assms] obtain x where x: "timestamp tz dt = Inr x"
    and pi: "py_int x = t - tz" by (auto simp: dt_def t_def US_PER_SECOND_def)
  have a: "0 \<le> t - tz" "t - tz < 8589934591"
    using assms(2,3) by (simp_all add: t_def dt_def US_PER_SECOND_def)
  have tzb: "- 86400 \<le> tz" "tz \<le> 86400" using assms(1) by simp_all
  have "MINDT + US_PER_DAY \<le> t * 1000000 \<and> t * 1000000 \<le> MAXDT"
    using tzb a
    by (simp add: MINDT_def MAXDT_def MINORD_def MAXORD_def EPOCHORD_def US_PER_DAY_def)
  then have "fromtimestamp tz (py_int x) = Inr (t * US_PER_SECOND)"
    unfolding pi by (simp add: fromtimestamp_def Let_def US_PER_SECOND_def)
  then have "log_date tz l = Inr (date_of (t * US_PER_SECOND))"
    using x by (simp add: log_date_def dt_def)
  then show ?thesis
    using date_of_floor_second [of dt]
    by (simp add: utc_date_def t_def dt_def US_PER_SECOND_def)
qed

section \<open>The result of \<open>compute_insights\<close>, step by step\<close>

subsection \<open>The streak loop\<close>

lemma streak_loop_Inr:
  "streak_loop ds d n = Inr m \<Longrightarrow>
     \<exists>k. m = n + k \<and> (\<forall>i<k. d - int i \<in> set ds) \<and> d - int k \<notin> set ds"
proof (induction ds d n rule: streak_loop.induct)
  case (1 ds d n)
  show ?case
  proof (cases "d \<in> set ds")
    case False
    with "1.prems" have "m = n" by (simp add: streak_loop.simps [of ds d n])
    with False show ?thesis by (intro exI [of _ 0]) simp
  next
    case True
    with "1.prems" have no: "\<not> d - 1 < MINORD" and rec: "streak_loop ds (d - 1) (n + 1) = Inr m"
      by (auto simp: streak_loop.simps [of ds d n] split: if_splits)
    from "1.IH" [OF True no rec] obtain k where k: "m = n + 1 + k"
      "\<forall>i<k. d - 1 - int i \<in> set ds" "d - 1 - int k \<notin> set ds" by auto
    have "\<forall>i<Suc k. d - int i \<in> set ds"
    proof (intro allI impI)
      fix i assume i: "i < Suc k"
      show "d - int i \<in> set ds"
      proof (cases i)
        case 0
        then show ?thesis using True by simp
      next
        case (Suc j)
        then have "j < k" using i by simp
        then have "d - 1 - int j \<in> set ds" using k(2) by simp
        moreover have "d - 1 - int j = d - int i" unfolding Suc by simp
        ultimately show ?thesis by (simp only:)
      qed
    qed
    moreover have "d - int (Suc k) \<notin> set ds"
    proof -
      have e: "d - int (Suc k) = d - 1 - int k" by simp
      show ?thesis unfolding e by (rule k(3))
    qed
    moreover have "m = n + Suc k" using k(1) by simp
    ultimately show ?thesis by blast
  qed
qed

lemma streak_loop_safe:
  "\<forall>x\<in>set ds. MINORD < x \<Longrightarrow> \<exists>m. streak_loop ds d n = Inr m"
proof (induction ds d n rule: streak_loop.induct)
  case (1 ds d n)
  show ?case
  proof (cases "d \<in> set ds")
    case False
    then show ?thesis by (simp add: streak_loop.simps [of ds d n])
  next
    case True
    then have no: "\<not> d - 1 < MINORD" using "1.prems" by auto
    from "1.IH" [OF True no "1.prems"] obtain m where "streak_loop ds (d - 1) (n + 1) = Inr m" ..
    then show ?thesis using True no by (simp add: streak_loop.simps [of ds d n])
  qed
qed

lemma run_le_card:
  assumes "\<forall>i<k. d - int i \<in> set ds"
  shows "k \<le> card (set ds)"
proof -
  have "inj_on (\<lambda>i. d - int i) {..<k}" by (rule inj_onI) simp
  then have "card ((\<lambda>i. d - int i) ` {..<k}) = k" by (simp add: card_image)
  moreover have "(\<lambda>i. d - int i) ` {..<k} \<subseteq> set ds" using assms by auto
  then have "card ((\<lambda>i. d - int i) ` {..<k}) \<le> card (set ds)"
    by (rule card_mono [OF finite_set])
  ultimately show ?thesis by simp
qed

subsection \<open>\<open>sorted(by.items())\<close>\<close>

lemma distinct_map_insort_key:
  "distinct (map f (insort_key f a xs)) = (f a \<notin> f ` set xs \<and> distinct (map f xs))"
  by (induction xs) (auto simp: set_insort_key)

lemma distinct_map_sort_key: "distinct (map f (sort_key f xs)) = distinct (map f xs)"
  by (induction xs) (simp_all add: distinct_map_insort_key)

lemma by_day_of_dates: "map date (by_day_of g) = map fst (sort_key fst g)"
  by (simp add: by_day_of_def comp_def case_prod_beta)

lemma by_day_of_length: "length (by_day_of g) = length g"
  by (simp add: by_day_of_def)

lemma by_day_of_sorted:
  assumes "distinct (map fst g)"
  shows "sorted_wrt (<) (map date (by_day_of g))"
proof -
  have "sorted (map fst (sort_key fst g))" by (rule sorted_sort_key)
  moreover have "distinct (map fst (sort_key fst g))"
    using assms by (simp only: distinct_map_sort_key)
  ultimately show ?thesis unfolding by_day_of_dates strict_sorted_iff by simp
qed

lemma by_day_of_set:
  "set (by_day_of g) = (\<lambda>(k, v). \<lparr>date = k, avg = py_round2 (mean v)\<rparr>) ` set g"
  by (simp add: by_day_of_def)

subsection \<open>The result of \<open>compute_insights\<close>\<close>

lemma compute_insights_unfold:
  assumes "sub_days now days = Inr since" and "store a since = logs"
  shows "compute_insights tz store now now' a days =
     (if logs = [] then Inr \<lparr>avg_mood = None, entries = 0, streak = 0, by_day = []\<rparr>
      else bind_err (log_dates tz logs) (\<lambda>ds.
           bind_err (streak_loop ds (date_of now') 0) (\<lambda>n.
           bind_err (group_by_day tz logs []) (\<lambda>g.
             Inr \<lparr>avg_mood = Some (py_round2 (mean (map get_mood logs))),
                  entries = length logs, streak = n, by_day = by_day_of g\<rparr>))))"
  using assms by (simp add: compute_insights_def Let_def by_day_of_def)

lemma compute_insights_window:
  assumes "compute_insights tz store now now' a days = Inr r"
  obtains since where "sub_days now days = Inr since"
  using assms by (cases "sub_days now days") (simp_all add: compute_insights_def)

lemma compute_insights_nonempty_Inr:
  assumes w: "sub_days now days = Inr since" "store a since = logs" and ne: "logs \<noteq> []"
    and r: "compute_insights tz store now now' a days = Inr r"
  shows "\<exists>n. streak_loop (map (the_date tz) logs) (date_of now') 0 = Inr n
     \<and> (\<forall>l\<in>set logs. log_date tz l = Inr (the_date tz l) \<and> mood l \<noteq> None)
     \<and> r = \<lparr>avg_mood = Some (py_round2 (mean (map get_mood logs))), entries = length logs,
            streak = n, by_day = by_day_of (grouped (day_key tz) get_mood logs [])\<rparr>"
proof -
  from r ne obtain ds n g where ds: "log_dates tz logs = Inr ds"
    and n: "streak_loop ds (date_of now') 0 = Inr n"
    and g: "group_by_day tz logs [] = Inr g"
    and r': "r = \<lparr>avg_mood = Some (py_round2 (mean (map get_mood logs))), entries = length logs,
              streak = n, by_day = by_day_of g\<rparr>"
    unfolding compute_insights_unfold [where store = store and a = a, OF w] by (auto simp: bind_err_Inr_iff)
  from log_dates_Inr [OF ds] have ds': "ds = map (the_date tz) logs" by simp
  from group_by_day_Inr [OF g] have g': "g = grouped (day_key tz) get_mood logs []"
    and ok: "\<forall>l\<in>set logs. log_date tz l = Inr (the_date tz l) \<and> mood l \<noteq> None" by simp_all
  show ?thesis using n r' ok unfolding ds' g' by blast
qed

lemma compute_insights_nonempty_total:
  assumes w: "sub_days now days = Inr since" "store a since = logs" and ne: "logs \<noteq> []"
    and ok: "\<forall>l\<in>set logs. log_date tz l = Inr (the_date tz l) \<and> mood l \<noteq> None"
    and n: "streak_loop (map (the_date tz) logs) (date_of now') 0 = Inr n"
  shows "compute_insights tz store now now' a days =
     Inr \<lparr>avg_mood = Some (py_round2 (mean (map get_mood logs))), entries = length logs,
          streak = n, by_day = by_day_of (grouped (day_key tz) get_mood logs [])\<rparr>"
proof -
  have ds: "log_dates tz logs = Inr (map (the_date tz) logs)"
    using ok by (intro log_dates_total) simp
  have g: "group_by_day tz logs [] = Inr (grouped (day_key tz) get_mood logs [])"
    using ok by (rule group_by_day_total)
  show ?thesis unfolding compute_insights_unfold [where store = store and a = a, OF w] using ne ds n g by simp
qed

lemma log_ok_iff:
  "log_ok tz l \<longleftrightarrow> mood l \<noteq> None \<and> log_date tz l = Inr (the_date tz l)"
  by (cases "log_date tz l") (simp_all add: log_ok_def the_date_def)

lemma the_date_range:
  assumes "log_date tz l = Inr (the_date tz l)"
  shows "MINORD < the_date tz l \<and> the_date tz l \<le> MAXORD"
  using assms by (rule log_date_range)

lemma compute_insights_log_ok:
  assumes w: "sub_days now days = Inr since" "store a since = logs" and ne: "logs \<noteq> []"
    and ok: "\<forall>l\<in>set logs. log_ok tz l"
  shows "\<exists>r. compute_insights tz store now now' a days = Inr r"
proof -
  have "\<forall>x\<in>set (map (the_date tz) logs). MINORD < x"
    using ok by (auto simp: log_ok_iff dest: the_date_range)
  then obtain n where n: "streak_loop (map (the_date tz) logs) (date_of now') 0 = Inr n"
    using streak_loop_safe by blast
  have "\<forall>l\<in>set logs. log_date tz l = Inr (the_date tz l) \<and> mood l \<noteq> None"
    using ok by (simp add: log_ok_iff)
  from compute_insights_nonempty_total [where store = store and a = a, OF w ne this n] show ?thesis by blast
qed

subsection \<open>Days and keys\<close>

lemma grouped_length: "length (grouped k v xs []) = card (k ` set xs)"
proof -
  have d: "distinct (map fst (grouped k v xs []))" by (rule grouped_distinct) simp
  have "length (grouped k v xs []) = length (map fst (grouped k v xs []))" by simp
  also have "\<dots> = card (set (map fst (grouped k v xs [])))" using d by (simp only: distinct_card)
  also have "\<dots> = card (k ` set xs)" unfolding grouped_keys by simp
  finally show ?thesis .
qed

lemma day_key_card:
  assumes "\<forall>l\<in>set logs. log_date tz l = Inr (the_date tz l)"
  shows "card (day_key tz ` set logs) = card (the_date tz ` set logs)"
proof -
  have inj: "inj_on isoformat (the_date tz ` set logs)"
  proof (rule inj_onI)
    fix x y assume x: "x \<in> the_date tz ` set logs" and y: "y \<in> the_date tz ` set logs"
      and e: "isoformat x = isoformat y"
    from x assms have "MINORD \<le> x \<and> x \<le> MAXORD" by (auto dest!: the_date_range)
    moreover from y assms have "MINORD \<le> y \<and> y \<le> MAXORD" by (auto dest!: the_date_range)
    ultimately show "x = y" using e by (auto intro: isoformat_inj)
  qed
  have "day_key tz ` set logs = isoformat ` (the_date tz ` set logs)"
    by (auto simp: day_key_def)
  then show ?thesis using inj by (simp add: card_image)
qed

lemma posix_log_date:
  assumes "posix_log tz l"
  shows "log_date tz l = Inr (utc_date l)" and "the_date tz l = utc_date l"
    and "MINORD < utc_date l" and "mood l \<noteq> None"
proof -
  show d: "log_date tz l = Inr (utc_date l)"
    using assms by (intro log_date_posix) (simp_all add: posix_log_def)
  then show "the_date tz l = utc_date l" by (rule log_date_the_date)
  from log_date_range [OF d] show "MINORD < utc_date l" by simp
  show "mood l \<noteq> None" using assms by (simp add: posix_log_def)
qed

lemma posix_log_ok: "posix_log tz l \<Longrightarrow> log_ok tz l"
  using posix_log_date [of tz l] by (simp add: log_ok_iff)

section \<open>Floats: the error of a rounded mean\<close>

lemma round_half_even_error: "\<bar>of_int (round_half_even t) - t\<bar> \<le> 1 / 2"
proof -
  define f where "f = \<lfloor>t\<rfloor>"
  define d where "d = t - of_int f"
  have d: "0 \<le> d" "d < 1" unfolding d_def f_def by linarith+
  have t: "t = of_int f + d" by (simp add: d_def)
  have "round_half_even t = (if d < 1 / 2 then f else if 1 / 2 < d then f + 1
      else if even f then f else f + 1)"
    by (simp add: round_half_even_def Let_def f_def d_def)
  then consider "round_half_even t = f" "d \<le> 1 / 2" | "round_half_even t = f + 1" "1 / 2 \<le> d"
    by (auto split: if_splits)
  then show ?thesis
  proof cases
    case 1
    then show ?thesis using d unfolding t by simp
  next
    case 2
    then show ?thesis using d unfolding t by simp
  qed
qed

lemma binary64_error:
  assumes "0 < x" and "x < 2 powi n" and "- 1021 \<le> n"
  shows "\<bar>binary64 x - x\<bar> \<le> 2 powi (n - 54)"
proof -
  define e where "e = max (floor_log2 \<bar>x\<bar>) (- 1022)"
  define u :: rat where "u = 2 powi (e - 52)"
  have u: "0 < u" by (simp add: u_def)
  have "floor_log2 x < n" using assms(1,2) by (rule floor_log2_less)
  then have e: "e \<le> n - 1" using assms(1,3) by (simp add: e_def)
  have y: "binary64 x = of_int (round_half_even (x / u)) * u"
    using assms(1) by (simp add: binary64_def Let_def u_def e_def)
  have "\<bar>binary64 x - x\<bar> = \<bar>of_int (round_half_even (x / u)) - x / u\<bar> * u"
  proof -
    have "binary64 x - x = (of_int (round_half_even (x / u)) - x / u) * u"
      unfolding y using u by (simp add: left_diff_distrib)
    then show ?thesis using u by (simp add: abs_mult)
  qed
  also have "\<dots> \<le> 1 / 2 * u"
    using round_half_even_error [of "x / u"] u by (intro mult_right_mono) simp_all
  also have "\<dots> = 2 powi (e - 53)"
  proof -
    have "(2::rat) powi (e - 52) = 2 powi ((e - 53) + 1)" by simp
    also have "\<dots> = 2 powi (e - 53) * 2" by (subst power_int_add) simp_all
    finally show ?thesis by (simp add: u_def)
  qed
  also have "\<dots> \<le> 2 powi (n - 54)" using e by (intro power_int_increasing) simp_all
  finally show ?thesis .
qed

lemma tie_gap:
  fixes k s n :: int and m :: rat
  assumes n0: "0 < n" and n40: "n < 2 ^ 40" and m: "m = of_int s / of_int n"
    and km: "\<bar>of_int k - m * 100\<bar> \<le> 1 / 2 + 100 / 2 ^ 51"
  shows "\<bar>of_int k / 100 - m\<bar> \<le> 1 / 200"
proof -
  have nr: "(0::rat) < of_int n" using n0 by simp
  define D where "D = 2 * n * k - 200 * s"
  have eq: "of_int k - m * 100 = (of_int D :: rat) / (2 * of_int n)"
    using nr by (simp add: m D_def divide_simps)
  have "\<bar>(of_int D :: rat)\<bar> = \<bar>of_int k - m * 100\<bar> * (2 * of_int n)"
    unfolding eq using nr by (simp add: abs_mult)
  also have "\<dots> \<le> (1 / 2 + 100 / 2 ^ 51) * (2 * of_int n)"
    using km nr by (intro mult_right_mono) simp_all
  also have "\<dots> = of_int n + of_int n * (200 / 2 ^ 51)" by (simp add: algebra_simps)
  also have "\<dots> < of_int n + 1"
  proof -
    have "(of_int n :: rat) < 2 ^ 40" using n40 by (metis of_int_less_iff of_int_numeral of_int_power)
    then have "(of_int n :: rat) * (200 / 2 ^ 51) < 2 ^ 40 * (200 / 2 ^ 51)"
      by (intro mult_strict_right_mono) simp_all
    also have "\<dots> < (1::rat)" by simp
    finally show ?thesis by simp
  qed
  finally have "\<bar>(of_int D :: rat)\<bar> < of_int (n + 1)" by simp
  then have "\<bar>D\<bar> < n + 1" by (metis of_int_abs of_int_less_iff)
  then have "\<bar>D\<bar> \<le> n" by simp
  then have "\<bar>(of_int D :: rat)\<bar> \<le> of_int n" by (metis of_int_abs of_int_le_iff)
  then have "\<bar>(of_int D :: rat)\<bar> / (2 * of_int n) \<le> 1 / 2"
    using nr by (simp add: pos_divide_le_eq)
  then have h: "\<bar>of_int k - m * 100\<bar> \<le> 1 / 2" unfolding eq using nr by (simp add: abs_mult)
  have "of_int k / 100 - m = (of_int k - m * 100) / 100" by simp
  then have "\<bar>of_int k / 100 - m\<bar> = \<bar>of_int k - m * 100\<bar> / 100"
    by (simp only: abs_divide)
  then show ?thesis using h by simp
qed

text \<open>The mean of \<open>n\<close> integers between 1 and 5, \<open>n\<close> below \<open>2 ^ 40\<close>, rounded by
  \<open>round(x, 2)\<close> after its rounding to a float: still a multiple of 0.01 nearest to the
  exact mean.\<close>

lemma py_round2_mean_nearest:
  assumes v: "v \<noteq> []" "\<forall>m\<in>set v. 1 \<le> m \<and> m \<le> 5" and n: "length v < 2 ^ 40"
  shows "\<exists>k. py_round2 (mean v) = of_int k / 100
           \<and> \<bar>of_int k / 100 - of_int (sum_list v) / of_nat (length v)\<bar> \<le> (1 / 200 :: rat)"
proof -
  define s where "s = sum_list v"
  define n where "n = int (length v)"
  have n0: "0 < n" using v(1) by (simp add: n_def)
  have n40: "n < 2 ^ 40" using n unfolding n_def by (metis of_nat_less_iff of_nat_numeral of_nat_power)
  have "sum_list (map (\<lambda>m. 1) v) \<le> sum_list (map (\<lambda>m. m) v)"
    using v(2) by (intro sum_list_mono) simp
  then have s1: "n \<le> s" by (simp add: s_def n_def sum_list_triv)
  have "sum_list (map (\<lambda>m. m) v) \<le> sum_list (map (\<lambda>m. 5) v)"
    using v(2) by (intro sum_list_mono) simp
  then have s5: "s \<le> 5 * n" by (simp add: s_def n_def sum_list_triv)
  define m :: rat where "m = of_int s / of_int n"
  have nr: "(0::rat) < of_int n" using n0 by simp
  have m1: "1 \<le> m"
  proof -
    have "(of_int n :: rat) \<le> of_int s" using s1 by (simp only: of_int_le_iff)
    then show ?thesis using nr by (simp add: m_def pos_le_divide_eq)
  qed
  have m5: "m \<le> 5"
  proof -
    have "(of_int s :: rat) \<le> of_int (5 * n)" using s5 by (simp only: of_int_le_iff)
    then show ?thesis using nr by (simp add: m_def pos_divide_le_eq)
  qed
  define x where "x = binary64 m"
  have mx: "mean v = x" by (simp add: mean_def x_def m_def s_def n_def)
  have "\<bar>x - m\<bar> \<le> 2 powi (3 - 54)"
    unfolding x_def
  proof (rule binary64_error)
    show "0 < m" using m1 by simp
    show "m < 2 powi 3" using m5 by simp
  qed simp
  then have xm: "\<bar>x - m\<bar> \<le> 1 / 2 ^ 51" by (simp add: power_int_minus_divide)
  define k where "k = round_half_even (x * 100)"
  have kx: "\<bar>of_int k - x * 100\<bar> \<le> 1 / 2" unfolding k_def by (rule round_half_even_error)
  have "\<bar>(x - m) * 100\<bar> = \<bar>x - m\<bar> * 100" by (simp only: abs_mult abs_numeral)
  moreover have "(x - m) * 100 = x * 100 - m * 100" by (rule left_diff_distrib)
  ultimately have "\<bar>x * 100 - m * 100\<bar> = \<bar>x - m\<bar> * 100" by (simp only:)
  then have "\<bar>x * 100 - m * 100\<bar> \<le> 100 / 2 ^ 51" using xm by simp
  moreover have "\<bar>of_int k - m * 100\<bar> \<le> \<bar>of_int k - x * 100\<bar> + \<bar>x * 100 - m * 100\<bar>"
    by linarith
  ultimately have km: "\<bar>of_int k - m * 100\<bar> \<le> 1 / 2 + 100 / 2 ^ 51" using kx by linarith
  from tie_gap [OF n0 n40 m_def km] have "\<bar>of_int k / 100 - m\<bar> \<le> 1 / 200" .
  moreover have "py_round2 (mean v) = of_int k / 100" by (simp add: py_round2_def mx k_def)
  ultimately show ?thesis unfolding m_def s_def n_def by (intro exI [of _ k]) simp
qed

section \<open>Records in another order\<close>

subsection \<open>The result as a function of the records\<close>








section \<open>The examples, evaluated\<close>

lemma grouped_cong:
  "\<forall>x\<in>set xs. k x = k' x \<Longrightarrow> grouped k v xs acc = grouped k' v xs acc"
  by (induction xs arbitrary: acc) simp_all

lemma compute_insights_posix:
  assumes w: "sub_days now days = Inr since" "store a since = logs" and ne: "logs \<noteq> []"
    and p: "\<forall>l\<in>set logs. posix_log tz l"
    and n: "streak_loop (map utc_date logs) (date_of now') 0 = Inr n"
  shows "compute_insights tz store now now' a days =
     Inr \<lparr>avg_mood = Some (py_round2 (mean (map get_mood logs))), entries = length logs,
          streak = n, by_day = by_day_of (grouped utc_iso get_mood logs [])\<rparr>"
proof -
  have ok: "\<forall>l\<in>set logs. log_date tz l = Inr (the_date tz l) \<and> mood l \<noteq> None"
  proof
    fix l assume "l \<in> set logs"
    then have "posix_log tz l" using p by simp
    from posix_log_date [OF this]
    show "log_date tz l = Inr (the_date tz l) \<and> mood l \<noteq> None" by simp
  qed
  have td: "map (the_date tz) logs = map utc_date logs" using p by (simp add: posix_log_date)
  have "\<forall>l\<in>set logs. day_key tz l = utc_iso l"
    using p by (simp add: day_key_def utc_iso_def posix_log_date)
  then have g: "grouped (day_key tz) get_mood logs [] = grouped utc_iso get_mood logs []"
    by (rule grouped_cong)
  have n': "streak_loop (map (the_date tz) logs) (date_of now') 0 = Inr n"
    unfolding td by (rule n)
  show ?thesis
    using compute_insights_nonempty_total [where store = store and a = a, OF w ne ok n']
    unfolding g .
qed

lemma sub_days_NOW0: "sub_days NOW0 7 = Inr 1793181600000000"
  by (simp add: sub_days_def NOW0_def US_PER_DAY_def MINDT_def MAXDT_def MINORD_def
      MAXORD_def EPOCHORD_def)


lemma sub_days_30000: "sub_days NOW0 30000 = Inr (- 798213600000000)"
  by (simp add: sub_days_def NOW0_def US_PER_DAY_def MINDT_def MAXDT_def MINORD_def
      MAXORD_def EPOCHORD_def)

lemma date_of_NOW:
  "date_of NOW0 = 739924" "date_of NOW_LATE = 739924" "date_of NOW_NEXT = 739925"
  by (simp_all add: date_of_def NOW0_def NOW_LATE_def NOW_NEXT_def US_PER_DAY_def EPOCHORD_def)

lemmas calendar_defs = isoformat_def ord2ymd_def month_day_def Let_def DI400Y_def DI100Y_def
  DI4Y_def DAYS_BEFORE_MONTH_def DAYS_IN_MONTH_def isoformat_ymd_def zfill_def str_nat_step
  str_nat_1 digit_def

lemma isoformat_2026:
  "isoformat 739920 = ''2026-10-31''" "isoformat 739921 = ''2026-11-01''"
  "isoformat 739922 = ''2026-11-02''" "isoformat 739923 = ''2026-11-03''"
  "isoformat 739924 = ''2026-11-04''"
  by (simp_all add: calendar_defs)

lemma isoformat_1970: "isoformat 719162 = ''1969-12-31''" "isoformat 719163 = ''1970-01-01''"
  by (simp_all add: calendar_defs)

lemmas record_defs = find_moodlog_def DOCS0_def DOCS_U_def DOCS_S_def DOCS_T_def DOCS_1969_def
  DOC_2600_def posix_log_def
  utc_iso_def utc_date_def date_of_def get_mood_def US_PER_SECOND_def US_PER_DAY_def EPOCHORD_def

subsection \<open>User \<open>u\<close>: three records on 2026-11-04\<close>

lemma find_u: "find_moodlog DOCS0 ''u'' 1793181600000000 = DOCS_U"
  by (simp add: find_moodlog_def DOCS0_def DOCS_U_def)

lemma moods_u: "map get_mood DOCS_U = [1, 2, 2]"
  by (simp add: record_defs)

lemma round_u: "py_round2 (mean [1, 2, 2]) = 167 / 100"
  by code_simp

lemma by_day_u: "by_day_of [(''2026-11-04'', [1, 2, 2])] = [\<lparr>date = ''2026-11-04'', avg = 167 / 100\<rparr>]"
  by (simp add: by_day_of_def round_u)

lemma eval_u:
  "compute_insights 0 (find_moodlog DOCS0) NOW0 NOW0 ''u'' 7
     = Inr \<lparr>avg_mood = Some (167 / 100), entries = 3, streak = 1,
            by_day = [\<lparr>date = ''2026-11-04'', avg = 167 / 100\<rparr>]\<rparr>"
proof -
  have ne: "DOCS_U \<noteq> []" by (simp add: record_defs)
  have p: "\<forall>l\<in>set DOCS_U. posix_log 0 l" by (simp add: record_defs)
  have d: "map utc_date DOCS_U = [739924, 739924, 739924]" by (simp add: record_defs)
  have n: "streak_loop (map utc_date DOCS_U) (date_of NOW0) 0 = Inr 1"
    unfolding d date_of_NOW by code_simp
  have g: "grouped utc_iso get_mood DOCS_U [] = [(''2026-11-04'', [1, 2, 2])]"
    by (simp add: record_defs isoformat_2026)
  have l: "length DOCS_U = 3" by (simp add: record_defs)
  show ?thesis
    using compute_insights_posix [where store = "find_moodlog DOCS0" and a = "''u''",
        OF sub_days_NOW0 find_u ne p n]
    by (simp add: moods_u round_u g by_day_u l)
qed

lemma compute_insights_eval:
  assumes w: "sub_days now days = Inr since" "store a since = logs" and ne: "logs \<noteq> []"
    and ds: "log_dates tz logs = Inr ds"
    and n: "streak_loop ds (date_of now') 0 = Inr n"
    and g: "group_by_day tz logs [] = Inr g"
  shows "compute_insights tz store now now' a days =
     Inr \<lparr>avg_mood = Some (py_round2 (mean (map get_mood logs))), entries = length logs,
          streak = n, by_day = by_day_of g\<rparr>"
  unfolding compute_insights_unfold [where store = store and a = a, OF w]
  using ne ds n g by simp

subsection \<open>User \<open>s\<close>: one record a day from 2026-10-31 to 2026-11-04\<close>

lemma find_s: "find_moodlog DOCS0 ''s'' 1793181600000000 = DOCS_S"
  by (simp add: find_moodlog_def DOCS0_def DOCS_S_def)

lemma posix_s: "\<forall>l\<in>set DOCS_S. posix_log 0 l"
  by (simp add: record_defs)

lemma dates_s: "map utc_date DOCS_S = [739920, 739921, 739922, 739923, 739924]"
  by (simp add: record_defs)

lemma round_s: "py_round2 (mean [4, 4, 5, 5, 5]) = 23 / 5"
  "py_round2 (mean [4]) = 4" "py_round2 (mean [5]) = 5"
  by code_simp+

lemma sort_s:
  "sort_key fst [(''2026-10-31'', [4]), (''2026-11-01'', [4]), (''2026-11-02'', [5]),
                 (''2026-11-03'', [5]), (''2026-11-04'', [5::int])]
   = [(''2026-10-31'', [4]), (''2026-11-01'', [4]), (''2026-11-02'', [5]),
      (''2026-11-03'', [5]), (''2026-11-04'', [5])]"
  by code_simp

lemma eval_s:
  "compute_insights 0 (find_moodlog DOCS0) NOW0 NOW0 ''s'' 7
     = Inr \<lparr>avg_mood = Some (23 / 5), entries = 5, streak = 5,
            by_day = [\<lparr>date = ''2026-10-31'', avg = 4\<rparr>, \<lparr>date = ''2026-11-01'', avg = 4\<rparr>,
                      \<lparr>date = ''2026-11-02'', avg = 5\<rparr>, \<lparr>date = ''2026-11-03'', avg = 5\<rparr>,
                      \<lparr>date = ''2026-11-04'', avg = 5\<rparr>]\<rparr>"
proof -
  have ne: "DOCS_S \<noteq> []" by (simp add: record_defs)
  have n: "streak_loop (map utc_date DOCS_S) (date_of NOW0) 0 = Inr 5"
    unfolding dates_s date_of_NOW by code_simp
  have g: "grouped utc_iso get_mood DOCS_S []
      = [(''2026-10-31'', [4]), (''2026-11-01'', [4]), (''2026-11-02'', [5]),
         (''2026-11-03'', [5]), (''2026-11-04'', [5])]"
    by (simp add: record_defs isoformat_2026)
  have m: "map get_mood DOCS_S = [4, 4, 5, 5, 5]" by (simp add: record_defs)
  have l: "length DOCS_S = 5" by (simp add: record_defs)
  show ?thesis
    using compute_insights_posix [where store = "find_moodlog DOCS0" and a = "''s''",
        OF sub_days_NOW0 find_s ne posix_s n]
    by (simp add: m g l by_day_of_def sort_s round_s)
qed

subsection \<open>User \<open>t\<close>: records on 2026-11-03 and 2026-11-04\<close>





lemma round_t: "py_round2 (mean [3, 4]) = 7 / 2" "py_round2 (mean [3]) = 3"
  by code_simp+



subsection \<open>User \<open>n\<close>: two records on 1969-12-31, the second half a second before midnight\<close>

lemma find_n: "find_moodlog DOCS_1969 ''n'' (- 798213600000000) = DOCS_1969"
  by (simp add: find_moodlog_def DOCS_1969_def)

lemma log_date_1969:
  "log_date 0 \<lparr>anonymous_id = ''n'', mood = Some 2, logged_at = - 43200000000\<rparr> = Inr 719162"
  "log_date 0 \<lparr>anonymous_id = ''n'', mood = Some 3, logged_at = - 500000\<rparr> = Inr 719163"
  "log_date (- 18000) \<lparr>anonymous_id = ''n'', mood = Some 2, logged_at = - 43200000000\<rparr>
     = Inr 719162"
  "log_date (- 18000) \<lparr>anonymous_id = ''n'', mood = Some 3, logged_at = - 500000\<rparr> = Inr 719162"
  by code_simp+

lemma streak_1969:
  "streak_loop [719162, 719163] 739924 0 = Inr 0" "streak_loop [719162, 719162] 739924 0 = Inr 0"
  by code_simp+

lemma round_1969: "py_round2 (mean [2, 3]) = 5 / 2" "py_round2 (mean [2]) = 2"
  by code_simp+

lemma sort_1969:
  "sort_key fst [(''1969-12-31'', [2]), (''1970-01-01'', [3::int])]
   = [(''1969-12-31'', [2]), (''1970-01-01'', [3])]"
  by code_simp

lemma utc_iso_1969: "map utc_iso DOCS_1969 = [''1969-12-31'', ''1969-12-31'']"
  by (simp add: record_defs isoformat_1970)

lemma eval_1969:
  "compute_insights 0 (find_moodlog DOCS_1969) NOW0 NOW0 ''n'' 30000
     = Inr \<lparr>avg_mood = Some (5 / 2), entries = 2, streak = 0,
            by_day = [\<lparr>date = ''1969-12-31'', avg = 2\<rparr>, \<lparr>date = ''1970-01-01'', avg = 3\<rparr>]\<rparr>"
proof -
  have ne: "DOCS_1969 \<noteq> []" by (simp add: record_defs)
  have ds: "log_dates 0 DOCS_1969 = Inr [719162, 719163]"
    by (simp add: DOCS_1969_def log_date_1969)
  have n: "streak_loop [719162, 719163] (date_of NOW0) 0 = Inr 0"
    unfolding date_of_NOW by (rule streak_1969)
  have g: "group_by_day 0 DOCS_1969 [] = Inr [(''1969-12-31'', [2]), (''1970-01-01'', [3])]"
    by (simp add: DOCS_1969_def log_date_1969 isoformat_1970)
  have m: "map get_mood DOCS_1969 = [2, 3]" by (simp add: record_defs)
  have l: "length DOCS_1969 = 2" by (simp add: record_defs)
  show ?thesis
    using compute_insights_eval [where store = "find_moodlog DOCS_1969" and a = "''n''",
        OF sub_days_30000 find_n ne ds n g]
    by (simp add: m l by_day_of_def sort_1969 round_1969 round_t)
qed


subsection \<open>A record in the last microsecond of 2600-01-01\<close>

text \<open>The float of its timestamp has no room for the microseconds and is the next whole
  second, so the code dates the record on the next day. This is why \<open>posix_log\<close> stops
  before 2242.\<close>

lemma log_date_2600: "log_date 0 DOC_2600 = Inr 949267" "utc_date DOC_2600 = 949266"
  by code_simp+

subsection \<open>A mean that is a decimal tie\<close>

text \<open>27 moods of 3 and 13 of 2 have the mean 107/40 = 2.675, halfway between 2.67 and
  2.68. Its float lies below it, and \<open>round(x, 2)\<close> gives 2.67.\<close>

lemma round_tie:
  "sum_list (replicate 27 3 @ replicate 13 2) = (107::int)"
  "length (replicate 27 (3::int) @ replicate 13 2) = 40"
  "mean (replicate 27 3 @ replicate 13 2) < 107 / 40"
  "py_round2 (mean (replicate 27 3 @ replicate 13 2)) = 267 / 100"
  by code_simp+

section \<open>The suggestion catalog and the rule tables\<close>

text \<open>
  Claim C8. \<open>SUGGESTION_LIBRARY\<close> holds exactly the four entries \<open>breath-2\<close> (duration 2,
  breathing), \<open>meditate-5\<close> (duration 5, meditation), \<open>walk-5\<close> (duration 5, walk) and
  \<open>affirm-1\<close> (duration 1, affirmation), in that order. It is a constant of the model: the
  only code that reads it, \<open>get_suggestions\<close>, returns its first two or its last two
  entries unchanged.
\<close>

theorem suggestion_library:
  "map (\<lambda>s. (sug_id s, duration s, sug_type s)) SUGGESTION_LIBRARY =
     [(''breath-2'', 2, ''breathing''), (''meditate-5'', 5, ''meditation''),
      (''walk-5'', 5, ''walk''), (''affirm-1'', 1, ''affirmation'')]
   \<and> (snd (select_suggestions ins) = take 2 SUGGESTION_LIBRARY
      \<or> snd (select_suggestions ins) = drop 2 SUGGESTION_LIBRARY)"
  by (cases "avg_mood ins")
    (simp_all add: select_suggestions_def SUGGESTION_LIBRARY_def numeral_2_eq_2)

text \<open>
  Claim C4. The selection of \<open>get_suggestions\<close> is a rule table read in order, the first
  match winning: no average gives catalog items 0 and 1 with the reason "Suggested to help
  you start your routine"; otherwise an average below 3 over at least 3 entries gives items
  0 and 1 with "Suggested because your average mood has been low this week"; otherwise
  items 2 and 3 with "Suggested based on your recent logs". The endpoint answers with that
  selection for the result of \<open>compute_insights\<close>, and fails exactly when
  \<open>compute_insights\<close> does.
\<close>

theorem select_suggestions_rules:
  "select_suggestions ins =
     (if avg_mood ins = None
      then (''Suggested to help you start your routine'',
            [SUGGESTION_LIBRARY ! 0, SUGGESTION_LIBRARY ! 1])
      else if the (avg_mood ins) < 3 \<and> 3 \<le> entries ins
      then (''Suggested because your average mood has been low this week'',
            [SUGGESTION_LIBRARY ! 0, SUGGESTION_LIBRARY ! 1])
      else (''Suggested based on your recent logs'',
            [SUGGESTION_LIBRARY ! 2, SUGGESTION_LIBRARY ! 3]))
   \<and> map_sum id (\<lambda>r. (reason r, items r)) (get_suggestions tz store now now' a days)
       = map_sum id select_suggestions (compute_insights tz store now now' a days)"
proof
  show "select_suggestions ins =
     (if avg_mood ins = None
      then (''Suggested to help you start your routine'',
            [SUGGESTION_LIBRARY ! 0, SUGGESTION_LIBRARY ! 1])
      else if the (avg_mood ins) < 3 \<and> 3 \<le> entries ins
      then (''Suggested because your average mood has been low this week'',
            [SUGGESTION_LIBRARY ! 0, SUGGESTION_LIBRARY ! 1])
      else (''Suggested based on your recent logs'',
            [SUGGESTION_LIBRARY ! 2, SUGGESTION_LIBRARY ! 3]))"
    by (cases "avg_mood ins")
      (simp_all add: select_suggestions_def SUGGESTION_LIBRARY_def numeral_2_eq_2)
  show "map_sum id (\<lambda>r. (reason r, items r)) (get_suggestions tz store now now' a days)
       = map_sum id select_suggestions (compute_insights tz store now now' a days)"
    by (cases "compute_insights tz store now now' a days") (simp_all add: get_suggestions_def)
qed

text \<open>
  Claim C9. For every string \<open>rng\<close> the endpoint \<open>insights\<close> reports as \<open>kpis\<close> the
  result of \<open>compute_insights\<close> over 7 days when \<open>rng\<close> is "7d" and over 30 days for every
  other string, "90d" among them; it raises nothing of its own, its only errors are those
  of \<open>compute_insights\<close>.
\<close>

theorem insights_window:
  "map_sum id kpis (insights tz store now now' a rng)
     = compute_insights tz store now now' a (if rng = ''7d'' then 7 else 30)
   \<and> map_sum id kpis (insights tz store now now' a ''90d'') = compute_insights tz store now now' a 30"
proof -
  have "map_sum id kpis (insights tz store now now' a r)
     = compute_insights tz store now now' a (if r = ''7d'' then 7 else 30)" for r
    by (cases "compute_insights tz store now now' a (if r = ''7d'' then 7 else 30)")
      (simp_all add: insights_def Let_def)
  from this [of rng] this [of "''90d''"] show ?thesis by simp
qed

section \<open>The results of \<open>compute_insights\<close>\<close>

text \<open>
  Claim C5. When the window starts at a representable instant \<open>since\<close> and the query
  finds no record, \<open>compute_insights\<close> returns exactly
  \<open>{avg_mood: None, entries: 0, streak: 0, by_day: []}\<close>.
\<close>

theorem compute_insights_empty:
  assumes "sub_days now days = Inr since" and "store a since = []"
  shows "compute_insights tz store now now' a days
           = Inr \<lparr>avg_mood = None, entries = 0, streak = 0, by_day = []\<rparr>"
  using assms by (simp add: compute_insights_def)

theorem compute_insights_empty_witness:
  "sub_days NOW0 7 = Inr 1793181600000000 \<and> find_moodlog DOCS0 ''w'' 1793181600000000 = []
   \<and> compute_insights 0 (find_moodlog DOCS0) NOW0 NOW0 ''w'' 7
       = Inr \<lparr>avg_mood = None, entries = 0, streak = 0, by_day = []\<rparr>"
proof -
  have h: "find_moodlog DOCS0 ''w'' 1793181600000000 = []"
    by (simp add: find_moodlog_def DOCS0_def)
  show ?thesis
    using sub_days_NOW0 h
      compute_insights_empty [where store = "find_moodlog DOCS0" and a = "''w''" and tz = 0,
        OF sub_days_NOW0 h]
    by simp
qed

lemma schema_mood_get:
  "schema_mood l \<Longrightarrow> 1 \<le> get_mood l \<and> get_mood l \<le> 5 \<and> mood l = Some (get_mood l)"
  by (cases "mood l") (simp_all add: schema_mood_def get_mood_def)

text \<open>
  Claim C2. For a non-empty list of records that the code can date, with moods from 1 to 5
  and fewer than \<open>2 ^ 40\<close> of them, \<open>compute_insights\<close> returns a result whose
  \<open>entries\<close> is the number of records and whose \<open>avg_mood\<close> is the mean of the moods
  rounded to 2 decimals: a multiple of 0.01 at most 0.005 away from the exact mean. It is
  \<open>round(x, 2)\<close> of the float \<open>x = sum / len\<close>. Every record's stored mood is the
  value that enters the mean. The code can date every record with a mood whose timestamp
  is not negative and before 2242 (\<open>posix_log_ok\<close>).
\<close>

theorem compute_insights_entries_avg:
  assumes "sub_days now days = Inr since" and "store a since = logs" and "logs \<noteq> []"
    and "\<forall>l\<in>set logs. log_ok tz l \<and> schema_mood l" and "length logs < 2 ^ 40"
  shows "\<exists>r k. compute_insights tz store now now' a days = Inr r
           \<and> entries r = length logs
           \<and> avg_mood r = Some (py_round2 (mean (map get_mood logs)))
           \<and> avg_mood r = Some (of_int k / 100)
           \<and> \<bar>of_int k / 100 - of_int (sum_list (map get_mood logs)) / of_nat (length logs)\<bar>
                \<le> (1 / 200 :: rat)
           \<and> map mood logs = map (\<lambda>l. Some (get_mood l)) logs"
proof -
  have ok: "\<forall>l\<in>set logs. log_ok tz l" using assms(4) by simp
  from compute_insights_log_ok [where store = store and a = a, OF assms(1-3) ok]
  obtain r where r: "compute_insights tz store now now' a days = Inr r" ..
  from compute_insights_nonempty_Inr [where store = store and a = a, OF assms(1-3) r]
  have e: "entries r = length logs"
    and av: "avg_mood r = Some (py_round2 (mean (map get_mood logs)))" by auto
  have "\<exists>k. py_round2 (mean (map get_mood logs)) = of_int k / 100
           \<and> \<bar>of_int k / 100 - of_int (sum_list (map get_mood logs))
                 / of_nat (length (map get_mood logs))\<bar> \<le> (1 / 200 :: rat)"
    using assms(3-5) by (intro py_round2_mean_nearest) (auto dest: schema_mood_get)
  then obtain k where k: "py_round2 (mean (map get_mood logs)) = of_int k / 100"
    "\<bar>of_int k / 100 - of_int (sum_list (map get_mood logs)) / of_nat (length logs)\<bar>
       \<le> (1 / 200 :: rat)" by auto
  have "map mood logs = map (\<lambda>l. Some (get_mood l)) logs"
    using assms(4) by (auto dest: schema_mood_get)
  with r e av k show ?thesis by auto
qed

text \<open>The moods 1, 2, 2 of user \<open>u\<close> give 1.67.\<close>

theorem compute_insights_entries_avg_witness:
  "sub_days NOW0 7 = Inr 1793181600000000
   \<and> find_moodlog DOCS0 ''u'' 1793181600000000 = DOCS_U
   \<and> DOCS_U \<noteq> []
   \<and> list_all (\<lambda>l. log_ok 0 l \<and> schema_mood l) DOCS_U
   \<and> length DOCS_U < 2 ^ 40
   \<and> map get_mood DOCS_U = [1, 2, 2]
   \<and> (\<exists>r k. compute_insights 0 (find_moodlog DOCS0) NOW0 NOW0 ''u'' 7 = Inr r
           \<and> entries r = length DOCS_U
           \<and> avg_mood r = Some (py_round2 (mean (map get_mood DOCS_U)))
           \<and> avg_mood r = Some (of_int k / 100)
           \<and> \<bar>of_int k / 100 - of_int (sum_list (map get_mood DOCS_U)) / of_nat (length DOCS_U)\<bar>
                \<le> (1 / 200 :: rat)
           \<and> map mood DOCS_U = map (\<lambda>l. Some (get_mood l)) DOCS_U)
   \<and> compute_insights 0 (find_moodlog DOCS0) NOW0 NOW0 ''u'' 7
       = Inr \<lparr>avg_mood = Some (167 / 100), entries = 3, streak = 1,
              by_day = [\<lparr>date = ''2026-11-04'', avg = 167 / 100\<rparr>]\<rparr>"
proof -
  have ne: "DOCS_U \<noteq> []" by (simp add: record_defs)
  have ok: "\<forall>l\<in>set DOCS_U. log_ok 0 l \<and> schema_mood l"
  proof
    fix l assume l: "l \<in> set DOCS_U"
    then have "posix_log 0 l" by (auto simp: record_defs)
    then have "log_ok 0 l" by (rule posix_log_ok)
    moreover have "schema_mood l" using l by (auto simp: record_defs schema_mood_def)
    ultimately show "log_ok 0 l \<and> schema_mood l" ..
  qed
  then have ok': "list_all (\<lambda>l. log_ok 0 l \<and> schema_mood l) DOCS_U" by (simp only: list_all_iff)
  have n: "length DOCS_U < 2 ^ 40" by (simp add: record_defs)
  note t = compute_insights_entries_avg [where store = "find_moodlog DOCS0" and a = "''u''"
      and tz = 0 and now' = NOW0, OF sub_days_NOW0 find_u ne ok n]
  show ?thesis by (intro conjI) (rule sub_days_NOW0 find_u ne ok' n moods_u t eval_u)+
qed

section \<open>The summary of the endpoint \<open>insights\<close>\<close>

lemma compute_insights_None:
  assumes "compute_insights tz store now now' a days = Inr r" and "avg_mood r = None"
  shows "r = \<lparr>avg_mood = None, entries = 0, streak = 0, by_day = []\<rparr>"
proof -
  from assms(1) obtain since where w: "sub_days now days = Inr since"
    by (rule compute_insights_window)
  show ?thesis
  proof (cases "store a since = []")
    case True
    then show ?thesis using assms(1) w by (simp add: compute_insights_def)
  next
    case False
    from compute_insights_nonempty_Inr [where store = store and a = a, OF w refl False assms(1)]
    show ?thesis using assms(2) by auto
  qed
qed

text \<open>
  Claim C6. The summary of \<open>insights\<close> has three branches: no logs, when there is no
  average; low mood, when the average is below 3; a stable mood otherwise; the actions
  follow the same branches. Whenever the result has a streak of at least 3, one more
  sentence ends the summary, which holds the streak in decimal digits.
\<close>

theorem insights_summary:
  assumes "insights tz store now now' a rng = Inr resp"
  shows "ai_summary resp =
           (case avg_mood (kpis resp) of
              None \<Rightarrow> [''No logs yet. Start with a 2-minute breathing reset.'']
            | Some am \<Rightarrow>
                if am < 3 then [''Mood has been on the lower side recently.'']
                else [''You'' @ [CHR 0x27] @ ''re maintaining a stable mood trend.''])
           @ (if 3 \<le> streak (kpis resp)
              then [''Nice streak: '' @ str_nat (streak (kpis resp)) @ '' days in a row.'']
              else [])
         \<and> suggested_actions resp =
           (case avg_mood (kpis resp) of
              None \<Rightarrow> [''Set a daily reminder at a calm time.'']
            | Some am \<Rightarrow>
                if am < 3 then [''Try a daily 5-minute mini meditation for 3 days.'']
                else [''Keep up the short check-ins and a micro-walk.''])"
proof -
  define days :: int where "days = (if rng = ''7d'' then 7 else 30)"
  from assms obtain data where d: "compute_insights tz store now now' a days = Inr data"
    and resp: "resp = \<lparr>kpis = data, ai_summary = fst (summarize data),
                       suggested_actions = snd (summarize data)\<rparr>"
    by (auto simp: insights_def Let_def days_def bind_err_Inr_iff)
  show ?thesis
  proof (cases "avg_mood data")
    case None
    from compute_insights_None [OF d None] have "streak data = 0" by simp
    then show ?thesis using None by (simp add: resp summarize_def)
  next
    case (Some am)
    then show ?thesis by (simp add: resp summarize_def Let_def)
  qed
qed

text \<open>User \<open>s\<close>, who logged 4, 4, 5, 5, 5 on five days in a row: a stable mood and a
  streak of 5.\<close>

theorem insights_summary_witness:
  "\<exists>resp. insights 0 (find_moodlog DOCS0) NOW0 NOW0 ''s'' ''7d'' = Inr resp
     \<and> avg_mood (kpis resp) = Some (23 / 5) \<and> streak (kpis resp) = 5
     \<and> ai_summary resp = [''You'' @ [CHR 0x27] @ ''re maintaining a stable mood trend.'',
                           ''Nice streak: 5 days in a row.'']
     \<and> suggested_actions resp = [''Keep up the short check-ins and a micro-walk.'']"
proof -
  from eval_s obtain resp where r: "insights 0 (find_moodlog DOCS0) NOW0 NOW0 ''s'' ''7d'' = Inr resp"
    and k: "avg_mood (kpis resp) = Some (23 / 5)" "streak (kpis resp) = 5"
    by (simp add: insights_def)
  have five: "str_nat 5 = ''5''" by (simp add: str_nat_1 digit_def)
  from insights_summary [OF r] show ?thesis using r by (simp add: k five)
qed

section \<open>Invariants of the result\<close>

text \<open>
  Claim C10. Every result of \<open>compute_insights\<close> has \<open>avg_mood\<close> absent exactly when
  \<open>entries\<close> is 0, and \<open>entries\<close> is the number of records the query returned; when
  there are records, \<open>by_day\<close> is not empty and \<open>streak\<close> is at most its length.
\<close>

theorem compute_insights_invariant:
  assumes "compute_insights tz store now now' a days = Inr r"
  shows "(avg_mood r = None \<longleftrightarrow> entries r = 0)
         \<and> (0 < entries r \<longrightarrow> by_day r \<noteq> [] \<and> streak r \<le> length (by_day r))
         \<and> (\<exists>since. sub_days now days = Inr since \<and> entries r = length (store a since))"
proof -
  from assms obtain since where w: "sub_days now days = Inr since"
    by (rule compute_insights_window)
  define logs where "logs = store a since"
  show ?thesis
  proof (cases "logs = []")
    case True
    then have "r = \<lparr>avg_mood = None, entries = 0, streak = 0, by_day = []\<rparr>"
      using assms w by (simp add: compute_insights_def logs_def)
    then show ?thesis using w True by (auto simp: logs_def)
  next
    case False
    from compute_insights_nonempty_Inr [where store = store and a = a, OF w logs_def [symmetric] False assms]
    obtain n where n: "streak_loop (map (the_date tz) logs) (date_of now') 0 = Inr n"
      and ok: "\<forall>l\<in>set logs. log_date tz l = Inr (the_date tz l) \<and> mood l \<noteq> None"
      and r: "r = \<lparr>avg_mood = Some (py_round2 (mean (map get_mood logs))), entries = length logs,
            streak = n, by_day = by_day_of (grouped (day_key tz) get_mood logs [])\<rparr>" by blast
    have ok': "\<forall>l\<in>set logs. log_date tz l = Inr (the_date tz l)" using ok by simp
    have len: "length (by_day r) = card (the_date tz ` set logs)"
      unfolding r using day_key_card [OF ok'] by (simp add: by_day_of_length grouped_length)
    from streak_loop_Inr [OF n] obtain k where k: "n = k"
      "\<forall>i<k. date_of now' - int i \<in> set (map (the_date tz) logs)" by auto
    from run_le_card [OF k(2)] have "n \<le> card (the_date tz ` set logs)" using k(1) by simp
    then have s: "streak r \<le> length (by_day r)" unfolding len by (simp add: r)
    have "0 < card (the_date tz ` set logs)" using False by (simp add: card_gt_0_iff)
    then have "by_day r \<noteq> []" using len by auto
    then show ?thesis using s w False by (auto simp: r logs_def)
  qed
qed

theorem compute_insights_invariant_witness:
  "\<exists>r. compute_insights 0 (find_moodlog DOCS0) NOW0 NOW0 ''s'' 7 = Inr r
     \<and> avg_mood r = Some (23 / 5) \<and> entries r = 5 \<and> by_day r \<noteq> []
     \<and> streak r = 5 \<and> length (by_day r) = 5 \<and> streak r \<le> length (by_day r)"
  using compute_insights_invariant [OF eval_s] eval_s by simp

section \<open>The streak\<close>




section \<open>The entries of \<open>by_day\<close>\<close>

text \<open>For records whose timestamps are not negative and lie before 2242, \<open>by_day\<close> has one
  entry for each UTC date with a record, in ascending order of the ISO dates, and the
  entry of a date averages the moods of the records of that date.\<close>

lemma by_day_posix:
  assumes "sub_days now days = Inr since" and "store a since = logs" and "logs \<noteq> []"
    and "\<forall>l\<in>set logs. posix_log tz l"
  shows "\<exists>r. compute_insights tz store now now' a days = Inr r
     \<and> sorted_wrt (<) (map date (by_day r))
     \<and> set (map date (by_day r)) = utc_iso ` set logs
     \<and> length (by_day r) = card (utc_date ` set logs)
     \<and> (\<forall>l\<in>set logs.
          \<lparr>date = utc_iso l,
           avg = py_round2 (mean (map get_mood (filter (\<lambda>l'. utc_date l' = utc_date l) logs)))\<rparr>
          \<in> set (by_day r))"
proof -
  have ok: "\<forall>l\<in>set logs. log_ok tz l" using assms(4) by (simp add: posix_log_ok)
  from compute_insights_log_ok [where store = store and a = a, OF assms(1-3) ok]
  obtain r where r: "compute_insights tz store now now' a days = Inr r" ..
  define g where "g = grouped (day_key tz) get_mood logs []"
  from compute_insights_nonempty_Inr [where store = store and a = a, OF assms(1-3) r]
  have bd: "by_day r = by_day_of g" unfolding g_def by auto
  have dk: "day_key tz l = utc_iso l" if "l \<in> set logs" for l
    using that assms(4) by (simp add: day_key_def utc_iso_def posix_log_date)
  have dist: "distinct (map fst g)" unfolding g_def by (rule grouped_distinct) simp
  have s1: "sorted_wrt (<) (map date (by_day r))" unfolding bd using dist by (rule by_day_of_sorted)
  have "set (map date (by_day r)) = set (map fst g)" unfolding bd by_day_of_dates by simp
  also have "\<dots> = day_key tz ` set logs" unfolding g_def grouped_keys by simp
  also have "\<dots> = utc_iso ` set logs" using dk by (intro image_cong) simp_all
  finally have s2: "set (map date (by_day r)) = utc_iso ` set logs" .
  have ld: "\<forall>l\<in>set logs. log_date tz l = Inr (the_date tz l)"
    using assms(4) by (simp add: posix_log_date)
  have "the_date tz ` set logs = utc_date ` set logs"
    using assms(4) by (intro image_cong) (simp_all add: posix_log_date)
  then have s3: "length (by_day r) = card (utc_date ` set logs)"
    unfolding bd g_def using day_key_card [OF ld] by (simp add: by_day_of_length grouped_length)
  have s4: "\<lparr>date = utc_iso l,
           avg = py_round2 (mean (map get_mood (filter (\<lambda>l'. utc_date l' = utc_date l) logs)))\<rparr>
          \<in> set (by_day r)" if l: "l \<in> set logs" for l
  proof -
    have "map_of g (day_key tz l)
        = Some (map get_mood (filter (\<lambda>x. day_key tz x = day_key tz l) logs))"
      unfolding g_def using l by (intro grouped_map_of_None) simp_all
    then have m: "(day_key tz l, map get_mood (filter (\<lambda>x. day_key tz x = day_key tz l) logs))
        \<in> set g" by (rule map_of_SomeD)
    have "filter (\<lambda>x. day_key tz x = day_key tz l) logs
        = filter (\<lambda>l'. utc_date l' = utc_date l) logs"
    proof (rule filter_cong [OF refl])
      fix x assume x: "x \<in> set logs"
      have rx: "MINORD \<le> utc_date x \<and> utc_date x \<le> MAXORD"
        using x assms(4) log_date_range [of tz x "utc_date x"] by (simp add: posix_log_date)
      have rl: "MINORD \<le> utc_date l \<and> utc_date l \<le> MAXORD"
        using l assms(4) log_date_range [of tz l "utc_date l"] by (simp add: posix_log_date)
      show "(day_key tz x = day_key tz l) = (utc_date x = utc_date l)"
        using rx rl by (auto simp: dk [OF x] dk [OF l] utc_iso_def intro: isoformat_inj)
    qed
    with m have "(utc_iso l, map get_mood (filter (\<lambda>l'. utc_date l' = utc_date l) logs)) \<in> set g"
      by (simp add: dk [OF l])
    then show ?thesis unfolding bd by_day_of_set by force
  qed
  show ?thesis using r s1 s2 s3 s4 by blast
qed

text \<open>
  Claim C1. \<open>compute_insights\<close> does not always group the records by the UTC date of
  \<open>logged_at\<close>: it dates a record by
  \<open>datetime.fromtimestamp(int(logged_at.timestamp()))\<close>, and \<open>int\<close> truncates a negative
  timestamp toward zero. Of two records of 1969-12-31, one at 12:00:00 and one at
  23:59:59.5, the second is filed under 1970-01-01: the one UTC date gets two entries,
  one of them under another date.
\<close>

theorem by_day_misdated:
  "compute_insights 0 (find_moodlog DOCS_1969) NOW0 NOW0 ''n'' 30000
     = Inr \<lparr>avg_mood = Some (5 / 2), entries = 2, streak = 0,
            by_day = [\<lparr>date = ''1969-12-31'', avg = 2\<rparr>, \<lparr>date = ''1970-01-01'', avg = 3\<rparr>]\<rparr>
   \<and> map utc_iso DOCS_1969 = [''1969-12-31'', ''1969-12-31'']"
  by (intro conjI) (rule eval_1969 utc_iso_1969)+

section \<open>What the result depends on\<close>




end
